theory Spec2Isabelle
  imports Complex_Main "HOL-Library.Multiset"
begin

section \<open>Strings of the program\<close>

text \<open>
  A JavaScript string is a sequence of code units; the model takes a \<open>string\<close>
  (a \<open>char list\<close>), one \<open>char\<close> for each code unit below 256. The four characters the
  CSV scanner compares against are named.
\<close>

definition DQ :: char where "DQ = CHR 0x22"
definition COMMA :: char where "COMMA = CHR 0x2C"
definition LF :: char where "LF = CHR 0x0A"
definition CR :: char where "CR = CHR 0x0D"

text \<open>
  \<open>String.prototype.trim\<close> removes white space and line terminators from both ends.
  Below 256 these are tab, line feed, vertical tab, form feed, carriage return, space and
  the no-break space.
\<close>

definition isWhitespace :: "char \<Rightarrow> bool" where
  "isWhitespace c \<longleftrightarrow>
     c = CHR 0x09 \<or> c = CHR 0x0A \<or> c = CHR 0x0B \<or> c = CHR 0x0C \<or> c = CHR 0x0D \<or>
     c = CHR 0x20 \<or> c = CHR 0xA0"

definition trim :: "string \<Rightarrow> string" where
  "trim s = rev (dropWhile isWhitespace (rev (dropWhile isWhitespace s)))"

text \<open>\<open>csvText[i + 1]\<close>: the character after the current one, \<open>undefined\<close> at the end.\<close>

fun nextChar :: "string \<Rightarrow> char option" where
  "nextChar [] = None"
| "nextChar (c # cs) = Some c"

text \<open>A number in a template literal: its decimal digits.\<close>

definition digitChar :: "nat \<Rightarrow> char" where
  "digitChar d = char_of (48 + d)"

fun showNat :: "nat \<Rightarrow> string" where
  "showNat n = (if n < 10 then [digitChar n] else showNat (n div 10) @ [digitChar (n mod 10)])"

declare showNat.simps [simp del]

definition showInt :: "int \<Rightarrow> string" where
  "showInt k = (if k < 0 then CHR ''-'' # showNat (nat (- k)) else showNat (nat k))"

text \<open>\<open>Array.prototype.join\<close> with a separator.\<close>

fun join :: "string \<Rightarrow> string list \<Rightarrow> string" where
  "join sep [] = []"
| "join sep [x] = x"
| "join sep (x # y # ys) = x @ sep @ join sep (y # ys)"

section \<open>The CSV scanner of the upload component\<close>

text \<open>
  \<open>parseCSV\<close> of \<open>question-challenge-home.component.ts\<close> (the variant with
  \<open>fieldStartedWithQuote\<close>): one pass over the text with five local variables, here the
  fields of \<open>pstate\<close>. The loop index is the list still to be read; \<open>i++\<close> inside the
  body drops one more character.
\<close>

record pstate =
  rows :: "string list list"
  currentRow :: "string list"
  currentField :: string
  inQuotes :: bool
  fieldStartedWithQuote :: bool

definition initial :: pstate where
  "initial = \<lparr>rows = [], currentRow = [], currentField = [], inQuotes = False,
     fieldStartedWithQuote = False\<rparr>"

text \<open>\<open>fieldStartedWithQuote ? currentField : currentField.trim()\<close>\<close>

definition fieldValue :: "pstate \<Rightarrow> string" where
  "fieldValue st = (if fieldStartedWithQuote st then currentField st else trim (currentField st))"

text \<open>\<open>currentRow.some(field => field.length > 0)\<close>\<close>

definition someNonEmpty :: "string list \<Rightarrow> bool" where
  "someNonEmpty row = list_ex (\<lambda>field. 0 < length field) row"

text \<open>
  The comma branch ends a field. The newline branch and the lines after the loop push the
  last field and then the row, when some field of it is not empty: \<open>flush\<close> is the value of
  \<open>rows\<close> after that.
\<close>

definition endField :: "pstate \<Rightarrow> pstate" where
  "endField st = st\<lparr>currentRow := currentRow st @ [fieldValue st], currentField := [],
     fieldStartedWithQuote := False\<rparr>"

definition flush :: "pstate \<Rightarrow> string list list" where
  "flush st =
     (let row = currentRow st @ [fieldValue st]
      in if someNonEmpty row then rows st @ [row] else rows st)"

definition endRow :: "pstate \<Rightarrow> pstate" where
  "endRow st = st\<lparr>rows := flush st, currentRow := [], currentField := [],
     fieldStartedWithQuote := False\<rparr>"

function scan :: "pstate \<Rightarrow> string \<Rightarrow> pstate" where
  "scan st [] = st"
| "scan st (c # cs) =
     (if c = DQ then
        (if currentField st = [] \<and> \<not> inQuotes st then
           scan (st\<lparr>inQuotes := True, fieldStartedWithQuote := True\<rparr>) cs
         else if inQuotes st \<and> nextChar cs = Some DQ then
           scan (st\<lparr>currentField := currentField st @ [DQ]\<rparr>) (tl cs)
         else if inQuotes st then
           scan (st\<lparr>inQuotes := False\<rparr>) cs
         else
           scan (st\<lparr>currentField := currentField st @ [c]\<rparr>) cs)
      else if c = COMMA \<and> \<not> inQuotes st then
        scan (endField st) cs
      else if (c = LF \<or> c = CR) \<and> \<not> inQuotes st then
        scan (endRow st) (if c = CR \<and> nextChar cs = Some LF then tl cs else cs)
      else
        scan (st\<lparr>currentField := currentField st @ [c]\<rparr>) cs)"
  by pat_completeness auto
termination
  by (relation "measure (\<lambda>(st, cs). length cs)") auto

definition parseCSV :: "string \<Rightarrow> string list list" where
  "parseCSV csvText = flush (scan initial csvText)"

subsection \<open>The earlier variant of the scanner\<close>

text \<open>
  The file also holds an earlier \<open>parseCSV\<close>, without \<open>fieldStartedWithQuote\<close>: every
  double quote that is not an escaped one toggles \<open>inQuotes\<close>, and every field is trimmed.
  It uses the same variables but for the flag, which stays \<open>False\<close> here.
\<close>

function scanEarlier :: "pstate \<Rightarrow> string \<Rightarrow> pstate" where
  "scanEarlier st [] = st"
| "scanEarlier st (c # cs) =
     (if c = DQ then
        (if inQuotes st \<and> nextChar cs = Some DQ then
           scanEarlier (st\<lparr>currentField := currentField st @ [DQ]\<rparr>) (tl cs)
         else
           scanEarlier (st\<lparr>inQuotes := \<not> inQuotes st\<rparr>) cs)
      else if c = COMMA \<and> \<not> inQuotes st then
        scanEarlier (endField st) cs
      else if (c = LF \<or> c = CR) \<and> \<not> inQuotes st then
        scanEarlier (endRow st) (if c = CR \<and> nextChar cs = Some LF then tl cs else cs)
      else
        scanEarlier (st\<lparr>currentField := currentField st @ [c]\<rparr>) cs)"
  by pat_completeness auto
termination
  by (relation "measure (\<lambda>(st, cs). length cs)") auto

definition parseCSVEarlier :: "string \<Rightarrow> string list list" where
  "parseCSVEarlier csvText = flush (scanEarlier initial csvText)"

section \<open>The question validator of the upload component\<close>

record Question =
  question :: string
  answers :: "string list"
  correct :: int

text \<open>
  \<open>shuffleArray\<close>: a copy of the array, then for \<open>i\<close> from the last index down to 1 a
  swap of positions \<open>i\<close> and \<open>j = Math.floor(Math.random() * (i + 1))\<close>. The random
  numbers are an input of the model: \<open>rand k\<close> stands for the outcome of the \<open>k\<close>-th call,
  and \<open>rand k mod (i + 1)\<close> for the index that the call yields, so that every index from
  \<open>0\<close> to \<open>i\<close> can come out and no other.
\<close>

definition swap :: "nat \<Rightarrow> nat \<Rightarrow> 'a list \<Rightarrow> 'a list" where
  "swap i j xs = (xs[i := xs ! j])[j := xs ! i]"

fun shuffleLoop :: "(nat \<Rightarrow> nat) \<Rightarrow> nat \<Rightarrow> nat \<Rightarrow> 'a list \<Rightarrow> 'a list" where
  "shuffleLoop rand k 0 shuffled = shuffled"
| "shuffleLoop rand k (Suc i) shuffled =
     (let j = rand k mod (Suc i + 1)
      in shuffleLoop rand (k + 1) i (swap (Suc i) j shuffled))"

definition shuffleArray :: "(nat \<Rightarrow> nat) \<Rightarrow> nat \<Rightarrow> 'a list \<Rightarrow> 'a list" where
  "shuffleArray rand k array = shuffleLoop rand k (length array - 1) array"

text \<open>\<open>Array.prototype.indexOf\<close>: the first index of the element, \<open>-1\<close> when it is absent.\<close>

fun indexOf :: "'a list \<Rightarrow> 'a \<Rightarrow> int" where
  "indexOf [] x = - 1"
| "indexOf (y # ys) x =
     (if y = x then 0 else (let r = indexOf ys x in if r < 0 then - 1 else r + 1))"

text \<open>
  The loop over the data rows keeps the accepted questions and the error messages; \<open>draws\<close>
  counts the calls of \<open>Math.random\<close> made so far.
\<close>

record vstate =
  questions :: "Question list"
  errorMessages :: "string list"
  draws :: nat

definition lineLabel :: "nat \<Rightarrow> string" where
  "lineLabel i = ''Line '' @ showNat (i + 1)"

definition notEnoughColumns :: "nat \<Rightarrow> string" where
  "notEnoughColumns i =
     lineLabel i @ '': Not enough columns (need at least 5: question + 4 answers)''"

text \<open>The body of the loop for row \<open>i\<close>, each \<open>continue\<close> a branch that returns.\<close>

definition rowBody :: "(nat \<Rightarrow> nat) \<Rightarrow> nat \<Rightarrow> string list \<Rightarrow> vstate \<Rightarrow> vstate" where
  "rowBody rand i parts st =
     (if length parts = 0 \<or> parts ! 0 = [] then st
      else if length parts < 5 then
        st\<lparr>errorMessages := errorMessages st @ [notEnoughColumns i]\<rparr>
      else
        (let q = trim (parts ! 0);
             correctAnswer = trim (parts ! 1);
             wrongAnswers = [trim (parts ! 2), trim (parts ! 3), trim (parts ! 4)]
         in if q = [] then
              st\<lparr>errorMessages := errorMessages st @ [lineLabel i @ '': Question is empty'']\<rparr>
            else if correctAnswer = [] then
              st\<lparr>errorMessages := errorMessages st @ [lineLabel i @ '': Correct answer is empty'']\<rparr>
            else if list_ex (\<lambda>a. a = []) wrongAnswers then
              st\<lparr>errorMessages :=
                   errorMessages st @ [lineLabel i @ '': One or more wrong answers are empty'']\<rparr>
            else
              (let allAnswers = correctAnswer # wrongAnswers;
                   shuffledAnswers = shuffleArray rand (draws st) allAnswers;
                   correctIndex = indexOf shuffledAnswers correctAnswer
               in st\<lparr>questions := questions st @
                        [\<lparr>question = q, answers = shuffledAnswers, correct = correctIndex\<rparr>],
                      draws := draws st + (length allAnswers - 1)\<rparr>)))"

text \<open>\<open>for (let i = 1; i < rows.length; i++)\<close>, on the rows from index \<open>i\<close> on.\<close>

fun rowsLoop :: "(nat \<Rightarrow> nat) \<Rightarrow> nat \<Rightarrow> string list list \<Rightarrow> vstate \<Rightarrow> vstate" where
  "rowsLoop rand i [] st = st"
| "rowsLoop rand i (parts # rest) st = rowsLoop rand (i + 1) rest (rowBody rand i parts st)"

definition validateRows :: "(nat \<Rightarrow> nat) \<Rightarrow> nat \<Rightarrow> string list list \<Rightarrow> vstate" where
  "validateRows rand k rws =
     rowsLoop rand 1 (drop 1 rws) \<lparr>questions = [], errorMessages = [], draws = k\<rparr>"

subsection \<open>Accepted rows\<close>

text \<open>The conditions under which the loop body reaches the shuffle.\<close>

definition accepts :: "string list \<Rightarrow> bool" where
  "accepts parts \<longleftrightarrow>
     5 \<le> length parts \<and> parts ! 0 \<noteq> [] \<and> trim (parts ! 0) \<noteq> [] \<and> trim (parts ! 1) \<noteq> [] \<and>
     trim (parts ! 2) \<noteq> [] \<and> trim (parts ! 3) \<noteq> [] \<and> trim (parts ! 4) \<noteq> []"

text \<open>
  What the claim asks of the question made from a row: its text and answers are the trimmed
  fields of the row, the answers in some order, and \<open>correct\<close> points at the trimmed
  second field.
\<close>

definition roundTrip :: "string list \<Rightarrow> Question \<Rightarrow> bool" where
  "roundTrip parts q \<longleftrightarrow>
     question q = trim (parts ! 0) \<and>
     mset (answers q) = mset [trim (parts ! 1), trim (parts ! 2), trim (parts ! 3), trim (parts ! 4)] \<and>
     0 \<le> correct q \<and> correct q < 4 \<and>
     answers q ! nat (correct q) = trim (parts ! 1)"

subsection \<open>The upload component\<close>

text \<open>The signals and the private field of the upload component.\<close>

record upload =
  gameStarted :: bool
  questionsLoaded :: bool
  uploadError :: "string option"
  fileName :: "string option"
  questionCount :: nat
  questionsPerRound :: int
  timeLimit :: int
  uploadedQuestions :: "Question list"

definition headerMissing :: string where
  "headerMissing = ''File must contain at least a header and one question.''"

definition errorsFound :: "string list \<Rightarrow> string" where
  "errorsFound msgs = ''Errors found:'' @ [LF] @ join [LF] (take 3 msgs)"

definition needAtLeast :: "int \<Rightarrow> nat \<Rightarrow> string" where
  "needAtLeast minQuestions found =
     ''Need at least '' @ showInt minQuestions @ '' valid questions. Found only '' @
     showNat found @ ''.''"

text \<open>
  \<open>parseAndValidateCSV\<close>, from the text of the file and the component before to the
  component after; \<open>k\<close> is the number of calls of \<open>Math.random\<close> made before.
\<close>

definition parseAndValidateCSV :: "(nat \<Rightarrow> nat) \<Rightarrow> nat \<Rightarrow> string \<Rightarrow> upload \<Rightarrow> upload" where
  "parseAndValidateCSV rand k csvText s =
     (let rws = parseCSV csvText
      in if length rws < 2 then
           s\<lparr>uploadError := Some headerMissing, questionsLoaded := False\<rparr>
         else
           (let st = validateRows rand k rws
            in if 0 < length (errorMessages st) \<and> length (questions st) = 0 then
                 s\<lparr>uploadError := Some (errorsFound (errorMessages st)), questionsLoaded := False\<rparr>
               else if int (length (questions st)) < questionsPerRound s then
                 s\<lparr>uploadError :=
                      Some (needAtLeast (questionsPerRound s) (length (questions st))),
                   questionsLoaded := False\<rparr>
               else
                 s\<lparr>uploadedQuestions := questions st,
                   questionCount := length (questions st),
                   questionsLoaded := True,
                   uploadError := None\<rparr>))"

section \<open>The round engine of the game component\<close>

text \<open>
  \<open>QuestionChallengeComponent\<close> of \<open>home.component.ts\<close>. Its fields and signals are the
  fields of \<open>game\<close>; \<open>timerInterval\<close> is \<open>True\<close> when an interval is armed and \<open>False\<close>
  when the field is \<open>null\<close>. The private field \<open>questionsPerRound\<close> is \<open>gQuestionsPerRound\<close>
  here, the name being taken by the upload component. Seconds and counts are integers.
\<close>

record QuestionState =
  qsQuestion :: Question
  selected :: "int option"

record game =
  questionSets :: "QuestionState list"
  timeRemaining :: int
  roundComplete :: bool
  timeExpired :: bool
  showCongratulations :: bool
  currentRound :: nat
  currentRoundCorrect :: nat
  currentRoundTotal :: nat
  cumulativeCorrect :: nat
  cumulativeTotal :: nat
  roundTheme :: nat
  allQuestions :: "Question list"
  timerInterval :: bool
  gQuestionsPerRound :: int
  timeLimitSeconds :: int

text \<open>The component as its field initialisers leave it.\<close>

definition created :: game where
  "created = \<lparr>questionSets = [], timeRemaining = 90, roundComplete = False,
     timeExpired = False, showCongratulations = False, currentRound = 1,
     currentRoundCorrect = 0, currentRoundTotal = 0, cumulativeCorrect = 0,
     cumulativeTotal = 0, roundTheme = 0, allQuestions = [], timerInterval = False,
     gQuestionsPerRound = 4, timeLimitSeconds = 90\<rparr>"

definition stopTimer :: "game \<Rightarrow> game" where
  "stopTimer s = (if timerInterval s then s\<lparr>timerInterval := False\<rparr> else s)"

text \<open>
  \<open>startTimer\<close> arms the interval; \<open>timerCallback\<close> is the function it is armed with, and
  \<open>tick\<close> is one elapsed second: the callback runs when an interval is armed.
\<close>

definition startTimer :: "game \<Rightarrow> game" where
  "startTimer s = (stopTimer s)\<lparr>timerInterval := True\<rparr>"

definition timerCallback :: "game \<Rightarrow> game" where
  "timerCallback s =
     (let current = timeRemaining s
      in if 0 < current then s\<lparr>timeRemaining := current - 1\<rparr>
         else (stopTimer s)\<lparr>timeExpired := True, roundComplete := True\<rparr>)"

definition tick :: "game \<Rightarrow> game" where
  "tick s = (if timerInterval s then timerCallback s else s)"

text \<open>\<open>slice(0, count)\<close>: a negative \<open>count\<close> counts from the end.\<close>

definition slice0 :: "'a list \<Rightarrow> int \<Rightarrow> 'a list" where
  "slice0 xs n = (if 0 \<le> n then take (nat n) xs else take (length xs - nat (- n)) xs)"

text \<open>
  \<open>selectRandomQuestions\<close> sorts a copy of \<open>allQuestions\<close> with a random comparator and
  takes a prefix. The order the sort leaves is an input of the model, \<open>shuffled\<close>, and so
  is the theme index that \<open>Math.random\<close> picks.
\<close>

definition selectRandomQuestions :: "Question list \<Rightarrow> int \<Rightarrow> Question list" where
  "selectRandomQuestions shuffled n = slice0 shuffled n"

definition startNewRound :: "Question list \<Rightarrow> nat \<Rightarrow> game \<Rightarrow> game" where
  "startNewRound shuffled theme s =
     (let chosen = selectRandomQuestions shuffled (gQuestionsPerRound s)
      in startTimer
           (s\<lparr>questionSets := map (\<lambda>q. \<lparr>qsQuestion = q, selected = None\<rparr>) chosen,
              roundTheme := theme,
              timeRemaining := timeLimitSeconds s,
              roundComplete := False,
              timeExpired := False,
              showCongratulations := False,
              currentRoundCorrect := 0,
              currentRoundTotal := 0\<rparr>))"

definition loadQuestionsFromData :: "Question list \<Rightarrow> Question list \<Rightarrow> nat \<Rightarrow> game \<Rightarrow> game" where
  "loadQuestionsFromData qs shuffled theme s =
     (let s1 = s\<lparr>allQuestions := qs\<rparr>
      in if 0 < length (allQuestions s1) then startNewRound shuffled theme s1 else s1)"

text \<open>
  \<open>ngOnInit\<close> takes the input questions when there are some. Otherwise \<open>loadQuestions\<close>
  fetches the built-in file; when that succeeds it pushes the questions its parser makes,
  \<open>loaded\<close> here, and starts a round, and when it fails nothing happens.
\<close>

definition ngOnInit ::
  "Question list \<Rightarrow> Question list option \<Rightarrow> Question list \<Rightarrow> nat \<Rightarrow> game \<Rightarrow> game" where
  "ngOnInit inputQuestions loaded shuffled theme s =
     (if 0 < length inputQuestions then
        startNewRound shuffled theme (s\<lparr>allQuestions := inputQuestions\<rparr>)
      else
        (case loaded of
           None \<Rightarrow> s
         | Some qs \<Rightarrow> startNewRound shuffled theme (s\<lparr>allQuestions := allQuestions s @ qs\<rparr>)))"

definition ngOnDestroy :: "game \<Rightarrow> game" where
  "ngOnDestroy s = stopTimer s"

definition setQuestionsPerRound :: "int \<Rightarrow> game \<Rightarrow> game" where
  "setQuestionsPerRound n s = s\<lparr>gQuestionsPerRound := n\<rparr>"

definition setTimeLimit :: "int \<Rightarrow> game \<Rightarrow> game" where
  "setTimeLimit seconds s = s\<lparr>timeLimitSeconds := seconds\<rparr>"

text \<open>
  \<open>selectAnswer\<close>: writing to \<open>questionSets[questionIndex]\<close> outside the array throws a
  \<open>TypeError\<close> before anything is changed.
\<close>

datatype error = TypeError

definition selectAnswer :: "nat \<Rightarrow> int \<Rightarrow> game \<Rightarrow> error + game" where
  "selectAnswer questionIndex answerIndex s =
     (if roundComplete s then Inr s
      else if length (questionSets s) \<le> questionIndex then Inl TypeError
      else Inr (s\<lparr>questionSets :=
                  (questionSets s)[questionIndex :=
                     (questionSets s ! questionIndex)\<lparr>selected := Some answerIndex\<rparr>]\<rparr>))"

text \<open>The \<open>forEach\<close> of \<open>submitAnswers\<close> that counts the correct selections.\<close>

fun countCorrect :: "QuestionState list \<Rightarrow> nat \<Rightarrow> nat" where
  "countCorrect [] correctCount = correctCount"
| "countCorrect (qs # rest) correctCount =
     countCorrect rest
       (if selected qs = Some (correct (qsQuestion qs)) then correctCount + 1 else correctCount)"

definition submitAnswers :: "game \<Rightarrow> game" where
  "submitAnswers s =
     (if roundComplete s then s
      else
        (let allAnswered = list_all (\<lambda>qs. selected qs \<noteq> None) (questionSets s)
         in if \<not> allAnswered then s
            else
              (let s1 = (stopTimer s)\<lparr>roundComplete := True\<rparr>;
                   correctCount = countCorrect (questionSets s1) 0;
                   s2 = s1\<lparr>currentRoundCorrect := correctCount,
                          currentRoundTotal := length (questionSets s1),
                          cumulativeCorrect := cumulativeCorrect s1 + correctCount,
                          cumulativeTotal := cumulativeTotal s1 + length (questionSets s1)\<rparr>
               in if \<not> timeExpired s2 then s2\<lparr>showCongratulations := True\<rparr> else s2)))"

definition nextRound :: "Question list \<Rightarrow> nat \<Rightarrow> game \<Rightarrow> game" where
  "nextRound shuffled theme s = startNewRound shuffled theme (s\<lparr>currentRound := currentRound s + 1\<rparr>)"

definition goBack :: "game \<Rightarrow> game" where
  "goBack s = (stopTimer s)\<lparr>cumulativeCorrect := 0, cumulativeTotal := 0,
     currentRoundCorrect := 0, currentRoundTotal := 0, currentRound := 1\<rparr>"

definition canSubmit :: "game \<Rightarrow> bool" where
  "canSubmit s \<longleftrightarrow> \<not> roundComplete s \<and> list_all (\<lambda>qs. selected qs \<noteq> None) (questionSets s)"

text \<open>
  The states of a round, read off the two flags: \<open>Active\<close> until \<open>roundComplete\<close> is set,
  then complete, by the timer when \<open>timeExpired\<close> is set and by submission otherwise.
\<close>

datatype completion = Submitted | TimedOut

datatype phase = Active | Complete completion

definition phaseOf :: "game \<Rightarrow> phase" where
  "phaseOf s =
     (if \<not> roundComplete s then Active
      else if timeExpired s then Complete TimedOut else Complete Submitted)"

text \<open>What can happen to the component, and a run of such events from a state.\<close>

datatype event =
    NgOnInit "Question list" "Question list option" "Question list" nat
  | LoadQuestionsFromData "Question list" "Question list" nat
  | SetQuestionsPerRound int
  | SetTimeLimit int
  | Tick
  | SelectAnswer nat int
  | SubmitAnswers
  | NextRound "Question list" nat
  | GoBack
  | NgOnDestroy

fun fire :: "event \<Rightarrow> game \<Rightarrow> game" where
  "fire (NgOnInit inputQuestions loaded shuffled theme) s =
     ngOnInit inputQuestions loaded shuffled theme s"
| "fire (LoadQuestionsFromData qs shuffled theme) s = loadQuestionsFromData qs shuffled theme s"
| "fire (SetQuestionsPerRound n) s = setQuestionsPerRound n s"
| "fire (SetTimeLimit seconds) s = setTimeLimit seconds s"
| "fire Tick s = tick s"
| "fire (SelectAnswer questionIndex answerIndex) s =
     (case selectAnswer questionIndex answerIndex s of Inl e \<Rightarrow> s | Inr s' \<Rightarrow> s')"
| "fire SubmitAnswers s = submitAnswers s"
| "fire (NextRound shuffled theme) s = nextRound shuffled theme s"
| "fire GoBack s = goBack s"
| "fire NgOnDestroy s = ngOnDestroy s"

fun run :: "event list \<Rightarrow> game \<Rightarrow> game" where
  "run [] s = s"
| "run (e # es) s = run es (fire e s)"

subsection \<open>The percentage, in double precision\<close>

text \<open>
  \<open>getCumulativePercent\<close> computes \<open>Math.round((correct / total) * 100)\<close> on IEEE 754
  doubles. A positive double is \<open>m * 2 ^ e\<close> with a mantissa \<open>m\<close> of 53 bits; the pair
  \<open>(m, e)\<close> stands for it. Each operation gives the exact result rounded to the nearest
  such number, ties to the even mantissa. The model covers the numbers the counters take:
  naturals below \<open>2 ^ 53\<close>, whose quotients and products with 100 are far from overflow and
  underflow.
\<close>

fun bitLength :: "nat \<Rightarrow> nat" where
  "bitLength n = (if n = 0 then 0 else Suc (bitLength (n div 2)))"

declare bitLength.simps [simp del]

text \<open>\<open>floorLog2 num den\<close> is the integer part of the binary logarithm of \<open>num / den\<close>.\<close>

definition floorLog2 :: "nat \<Rightarrow> nat \<Rightarrow> int" where
  "floorLog2 num den =
     (let la = bitLength num; lb = bitLength den
      in if den * 2 ^ la \<le> num * 2 ^ lb then int la - int lb else int la - int lb - 1)"

text \<open>The integer nearest to \<open>num / den\<close>, ties to even.\<close>

definition nearestEven :: "nat \<Rightarrow> nat \<Rightarrow> nat" where
  "nearestEven num den =
     (let q = num div den; r = num mod den
      in if 2 * r < den then q
         else if den < 2 * r then q + 1
         else if even q then q else q + 1)"

text \<open>The double nearest to the positive fraction \<open>num / den\<close>.\<close>

definition toDouble :: "nat \<Rightarrow> nat \<Rightarrow> nat \<times> int" where
  "toDouble num den =
     (if num = 0 then (0, 0)
      else
        (let e = floorLog2 num den - 52
         in if e \<le> 0 then (nearestEven (num * 2 ^ nat (- e)) den, e)
            else (nearestEven num (den * 2 ^ nat e), e)))"

text \<open>\<open>a / b\<close> on two counters, and \<open>x * k\<close> on a double and a counter.\<close>

definition divDouble :: "nat \<Rightarrow> nat \<Rightarrow> nat \<times> int" where
  "divDouble a b = toDouble a b"

definition mulDouble :: "nat \<times> int \<Rightarrow> nat \<Rightarrow> nat \<times> int" where
  "mulDouble x k =
     (case x of (m, e) \<Rightarrow>
        if 0 \<le> e then toDouble (m * k * 2 ^ nat e) 1 else toDouble (m * k) (2 ^ nat (- e)))"

text \<open>\<open>Math.round\<close>: the nearest integer, the upper one at a tie.\<close>

definition mathRound :: "nat \<times> int \<Rightarrow> nat" where
  "mathRound x =
     (case x of (m, e) \<Rightarrow>
        if 0 \<le> e then m * 2 ^ nat e
        else (2 * m + 2 ^ nat (- e)) div (2 * 2 ^ nat (- e)))"

definition getCumulativePercent :: "game \<Rightarrow> nat" where
  "getCumulativePercent s =
     (let total = cumulativeTotal s
      in if total = 0 then 0
         else mathRound (mulDouble (divDouble (cumulativeCorrect s) total) 100))"

text \<open>
  The percentage in exact arithmetic: \<open>100 * correct / total\<close> rounded to the nearest
  integer, the upper one at a tie, and 0 when \<open>total\<close> is 0.
\<close>

definition roundedPercent :: "nat \<Rightarrow> nat \<Rightarrow> nat" where
  "roundedPercent c t = (if t = 0 then 0 else (2 * (100 * c) + t) div (2 * t))"

section \<open>The line splitter of the fallback path\<close>

text \<open>\<open>String.prototype.split\<close> with a separator of one character.\<close>

fun splitOn :: "char \<Rightarrow> string \<Rightarrow> string list" where
  "splitOn sep [] = [[]]"
| "splitOn sep (c # cs) =
     (if c = sep then [] # splitOn sep cs
      else (c # hd (splitOn sep cs)) # tl (splitOn sep cs))"

text \<open>
  \<open>parseCSV\<close> of the game component, which reads the built-in file: the lines are
  \<open>csvText.split('\n').filter(line => line.trim())\<close>, and a line is cut into
  \<open>line.trim().split(',')\<close>. \<open>fallbackRows\<close> is this decomposition for every line; the
  loop of the source goes through the lines after the first.
\<close>

definition fallbackLines :: "string \<Rightarrow> string list" where
  "fallbackLines csvText = filter (\<lambda>line. trim line \<noteq> []) (splitOn LF csvText)"

definition fallbackParts :: "string \<Rightarrow> string list" where
  "fallbackParts line = splitOn COMMA (trim line)"

definition fallbackRows :: "string \<Rightarrow> string list list" where
  "fallbackRows csvText = map fallbackParts (fallbackLines csvText)"

section \<open>Texts built from fields\<close>

text \<open>
  To say what the scanner returns for a field, a text is written as a table of fields. A
  field is either plain, given by its raw characters, or it begins with a double quote:
  then it has an interior, written between two double quotes with every double quote of
  the interior doubled, and the characters that stand between the closing quote and the
  next separator. The last field of a text may begin with a double quote that is never
  closed: its interior runs to the end of the text.
\<close>

datatype field = Plain string | Quoted string string | Unclosed string

fun escape :: "string \<Rightarrow> string" where
  "escape [] = []"
| "escape (c # cs) = (if c = DQ then [DQ, DQ] else [c]) @ escape cs"

fun renderField :: "field \<Rightarrow> string" where
  "renderField (Plain raw) = raw"
| "renderField (Quoted interior trailing) = [DQ] @ escape interior @ [DQ] @ trailing"
| "renderField (Unclosed interior) = [DQ] @ escape interior"

definition renderRow :: "field list \<Rightarrow> string" where
  "renderRow fs = join [COMMA] (map renderField fs)"

text \<open>The rows are joined by a line break: a line feed, a carriage return, or both.\<close>

definition lineBreak :: "string \<Rightarrow> bool" where
  "lineBreak eol \<longleftrightarrow> eol = [LF] \<or> eol = [CR] \<or> eol = [CR, LF]"

definition renderTable :: "string \<Rightarrow> field list list \<Rightarrow> string" where
  "renderTable eol t = join eol (map renderRow t)"

text \<open>
  Raw characters hold no separator and do not begin with a double quote (a double quote
  anywhere else is allowed). A field that a separator follows is plain or closed.
\<close>

definition rawText :: "string \<Rightarrow> bool" where
  "rawText raw \<longleftrightarrow>
     list_all (\<lambda>c. c \<noteq> COMMA \<and> c \<noteq> LF \<and> c \<noteq> CR) raw \<and> nextChar raw \<noteq> Some DQ"

fun wellFormed :: "field \<Rightarrow> bool" where
  "wellFormed (Plain raw) = rawText raw"
| "wellFormed (Quoted interior trailing) = rawText trailing"
| "wellFormed (Unclosed interior) = False"

definition wellFormedTable :: "field list list \<Rightarrow> bool" where
  "wellFormedTable t = list_all (\<lambda>row. row \<noteq> [] \<and> list_all wellFormed row) t"

text \<open>A text without double quote and carriage return, as the fallback path is compared on.\<close>

definition plainText :: "string \<Rightarrow> bool" where
  "plainText csvText = list_all (\<lambda>c. c \<noteq> DQ \<and> c \<noteq> CR) csvText"

text \<open>The scanner between two fields: outside quotes, with an empty current field.\<close>

definition atFieldStart :: "pstate \<Rightarrow> bool" where
  "atFieldStart st \<longleftrightarrow> \<not> inQuotes st \<and> currentField st = [] \<and> \<not> fieldStartedWithQuote st"

text \<open>What the claim expects for a field, and what the scanner returns for it.\<close>

fun interiorOrTrimmed :: "field \<Rightarrow> string" where
  "interiorOrTrimmed (Plain raw) = trim raw"
| "interiorOrTrimmed (Quoted interior trailing) = interior"
| "interiorOrTrimmed (Unclosed interior) = interior"

fun fieldResult :: "field \<Rightarrow> string" where
  "fieldResult (Plain raw) = trim raw"
| "fieldResult (Quoted interior trailing) = interior @ trailing"
| "fieldResult (Unclosed interior) = interior"

section \<open>Every text as lines of fields\<close>

text \<open>
  A text in general: lines of fields, each line with the line break that ends it, and a
  last line that no line break follows. The line breaks may differ from line to line.
\<close>

datatype lineEnd = LineFeed | Return | ReturnLineFeed

fun renderEnd :: "lineEnd \<Rightarrow> string" where
  "renderEnd LineFeed = [LF]"
| "renderEnd Return = [CR]"
| "renderEnd ReturnLineFeed = [CR, LF]"

type_synonym layout = "(field list \<times> lineEnd) list \<times> field list"

fun renderLines :: "(field list \<times> lineEnd) list \<Rightarrow> string" where
  "renderLines [] = []"
| "renderLines (l # ls) = renderRow (fst l) @ renderEnd (snd l) @ renderLines ls"

definition renderLayout :: "layout \<Rightarrow> string" where
  "renderLayout d = renderLines (fst d) @ renderRow (snd d)"

definition layoutRows :: "layout \<Rightarrow> field list list" where
  "layoutRows d = map fst (fst d) @ [snd d]"

text \<open>
  Every line has a field, every field but the last of the text is well formed, and the
  last one is well formed or unclosed.
\<close>

fun wellFormedLast :: "field \<Rightarrow> bool" where
  "wellFormedLast (Plain raw) = rawText raw"
| "wellFormedLast (Quoted interior trailing) = rawText trailing"
| "wellFormedLast (Unclosed interior) = True"

definition wellFormedLayout :: "layout \<Rightarrow> bool" where
  "wellFormedLayout d \<longleftrightarrow>
     list_all (\<lambda>l. fst l \<noteq> [] \<and> list_all wellFormed (fst l)) (fst d) \<and>
     snd d \<noteq> [] \<and> list_all wellFormed (butlast (snd d)) \<and> wellFormedLast (last (snd d))"

text \<open>
  Reading a text as such lines. \<open>unquote\<close> reads an interior after the opening quote: it
  gives the interior and, when a closing quote is found, the text after it. \<open>firstField\<close>
  reads one field and gives the text after it, which is empty or begins with a separator.
\<close>

definition isSeparator :: "char \<Rightarrow> bool" where
  "isSeparator c \<longleftrightarrow> c = COMMA \<or> c = LF \<or> c = CR"

function unquote :: "string \<Rightarrow> string \<times> string option" where
  "unquote [] = ([], None)"
| "unquote (c # cs) =
     (if c = DQ then
        (if nextChar cs = Some DQ then (DQ # fst (unquote (tl cs)), snd (unquote (tl cs)))
         else ([], Some cs))
      else (c # fst (unquote cs), snd (unquote cs)))"
  by pat_completeness auto
termination
  by (relation "measure length") auto

definition firstField :: "string \<Rightarrow> field \<times> string" where
  "firstField text =
     (if nextChar text = Some DQ then
        (case snd (unquote (tl text)) of
           None \<Rightarrow> (Unclosed (fst (unquote (tl text))), [])
         | Some rest \<Rightarrow>
             (Quoted (fst (unquote (tl text))) (takeWhile (\<lambda>c. \<not> isSeparator c) rest),
              dropWhile (\<lambda>c. \<not> isSeparator c) rest))
      else
        (Plain (takeWhile (\<lambda>c. \<not> isSeparator c) text),
         dropWhile (\<lambda>c. \<not> isSeparator c) text))"

definition addField :: "field \<Rightarrow> layout \<Rightarrow> layout" where
  "addField f d =
     (case fst d of
        [] \<Rightarrow> ([], f # snd d)
      | l # ls \<Rightarrow> ((f # fst l, snd l) # ls, snd d))"

definition addLine :: "field \<Rightarrow> lineEnd \<Rightarrow> layout \<Rightarrow> layout" where
  "addLine f e d = (([f], e) # fst d, snd d)"

lemma unquote_shorter: "snd (unquote s) = Some rest \<Longrightarrow> length rest < length s"
proof (induction s rule: unquote.induct)
  case 1
  then show ?case by simp
next
  case (2 c cs)
  show ?case
  proof (cases "c = DQ")
    case quote: True
    show ?thesis
    proof (cases "nextChar cs = Some DQ")
      case True
      with quote "2.prems" have "snd (unquote (tl cs)) = Some rest" by simp
      with "2.IH" quote True have "length rest < length (tl cs)" by blast
      then show ?thesis by simp
    next
      case False
      with quote "2.prems" show ?thesis by simp
    qed
  next
    case False
    with "2.prems" have "snd (unquote cs) = Some rest" by simp
    with "2.IH" False have "length rest < length cs" by blast
    then show ?thesis by simp
  qed
qed

lemma firstField_shorter: "length (snd (firstField s)) \<le> length s"
proof (cases "nextChar s = Some DQ")
  case True
  then obtain cs where s: "s = DQ # cs" by (cases s) auto
  show ?thesis
  proof (cases "snd (unquote cs)")
    case None
    with s show ?thesis by (simp add: firstField_def)
  next
    case (Some rest)
    have "length (dropWhile (\<lambda>c. \<not> isSeparator c) rest) \<le> length rest"
      by (rule length_dropWhile_le)
    with unquote_shorter [OF Some] s Some show ?thesis
      by (simp add: firstField_def)
  qed
next
  case False
  then show ?thesis by (simp add: firstField_def length_dropWhile_le)
qed

function decompose :: "string \<Rightarrow> layout" where
  "decompose text =
     (case snd (firstField text) of
        [] \<Rightarrow> ([], [fst (firstField text)])
      | c # cs \<Rightarrow>
          if c = COMMA then addField (fst (firstField text)) (decompose cs)
          else if c = CR \<and> nextChar cs = Some LF then
            addLine (fst (firstField text)) ReturnLineFeed (decompose (tl cs))
          else
            addLine (fst (firstField text)) (if c = CR then Return else LineFeed) (decompose cs))"
  by pat_completeness auto
termination
proof (relation "measure length")
  show "wf (measure length)" by simp
next
  fix s :: string and c cs
  assume "snd (firstField s) = c # cs"
  with firstField_shorter [of s] have "length cs < length s" by simp
  then show "(cs, s) \<in> measure length" by simp
  from \<open>length cs < length s\<close> show "(tl cs, s) \<in> measure length" by simp
  from \<open>length cs < length s\<close> show "(cs, s) \<in> measure length" by simp
qed

declare decompose.simps [simp del]

section \<open>Concrete states\<close>

text \<open>An upload component before any file is read, and a game component with a bank.\<close>

definition upload0 :: upload where
  "upload0 = \<lparr>gameStarted = False, questionsLoaded = False, uploadError = None,
     fileName = None, questionCount = 0, questionsPerRound = 4, timeLimit = 90,
     uploadedQuestions = []\<rparr>"

text \<open>A source of random numbers that always yields the first index, and two small files.\<close>

definition firstIndex :: "nat \<Rightarrow> nat" where
  "firstIndex k = 0"

definition shortRowFile :: string where
  "shortRowFile = ''h'' @ [LF] @ ''q,a''"

definition oneQuestionFile :: string where
  "oneQuestionFile = ''h'' @ [LF] @ ''q, a ,b,c,d'' @ [LF] @ ''x,y''"

text \<open>Two questions, a round of one second, and a round with both questions answered.\<close>

definition q1 :: Question where
  "q1 = \<lparr>question = ''2 + 2?'', answers = [''4'', ''3'', ''5'', ''6''], correct = 0\<rparr>"

definition q2 :: Question where
  "q2 = \<lparr>question = ''Capital of France?'', answers = [''London'', ''Paris'', ''Rome'', ''Bern''],
     correct = 1\<rparr>"

definition oneSecondRound :: game where
  "oneSecondRound = loadQuestionsFromData [q1, q2] [q1, q2] 0 (setTimeLimit 1 created)"

definition answeredRound :: "event list" where
  "answeredRound = [LoadQuestionsFromData [q1, q2] [q2, q1] 3, SelectAnswer 0 1, SelectAnswer 1 2]"

text \<open>
  Ten rounds of four questions under the initial settings, each answered and submitted:
  \<open>roundOfFour c\<close> answers the first \<open>c\<close> questions of a round correctly.
\<close>

definition roundOfFour :: "nat \<Rightarrow> event list" where
  "roundOfFour c = map (\<lambda>i. SelectAnswer i (if i < c then 0 else 1)) [0..<4] @ [SubmitAnswers]"

definition tenRounds :: "event list" where
  "tenRounds =
     LoadQuestionsFromData (replicate 4 q1) (replicate 4 q1) 0 # roundOfFour 3 @
     concat (map (\<lambda>c. NextRound (replicate 4 q1) 0 # roundOfFour c) [3, 3, 2, 2, 2, 2, 2, 2, 2])"

text \<open>
  A table of fields, a text with line breaks of three kinds and an unclosed last field,
  and a file with a comma inside quotes.
\<close>

definition quotedThenSpace :: "field list list" where
  "quotedThenSpace = [[Quoted ''a'' '' '', Plain ''b'']]"

definition mixedText :: string where
  "mixedText = '' x '' @ [LF] @ [DQ] @ ''a'' @ [DQ] @ '' ,b'' @ [CR, LF] @ ''c'' @ [CR] @
     ''d,'' @ [DQ] @ '' open,'' @ [LF]"

definition mixedLayout :: layout where
  "mixedLayout =
     ([([Plain '' x ''], LineFeed),
       ([Quoted ''a'' '' '', Plain ''b''], ReturnLineFeed),
       ([Plain ''c''], Return)],
      [Plain ''d'', Unclosed ('' open,'' @ [LF])])"

definition quotedCommaFile :: string where
  "quotedCommaFile = ''h,i'' @ [LF] @ [DQ] @ ''a,b'' @ [DQ] @ '',c''"

section \<open>Properties\<close>

subsection \<open>Files without a data row\<close>

lemma parseCSV_empty: "parseCSV [] = []"
  by (simp add: parseCSV_def flush_def initial_def fieldValue_def someNonEmpty_def trim_def)

text \<open>
  Claim C10. When the scanner returns fewer than two rows, \<open>parseAndValidateCSV\<close> sets the
  error to the message about the missing header or question and clears the
  loaded-questions flag; the stored questions and their count are those of before, so
  nothing of the file is loaded.
\<close>

theorem too_few_rows_rejected:
  assumes "length (parseCSV csvText) < 2"
  shows "uploadError (parseAndValidateCSV rand k csvText s) =
           Some ''File must contain at least a header and one question.'' \<and>
         questionsLoaded (parseAndValidateCSV rand k csvText s) = False \<and>
         uploadedQuestions (parseAndValidateCSV rand k csvText s) = uploadedQuestions s \<and>
         questionCount (parseAndValidateCSV rand k csvText s) = questionCount s"
  using assms by (simp add: parseAndValidateCSV_def headerMissing_def)

theorem too_few_rows_rejected_witness:
  "length (parseCSV []) < 2 \<and>
   uploadError (parseAndValidateCSV (\<lambda>k. 0) 0 [] (upload0\<lparr>questionsLoaded := True\<rparr>)) =
     Some ''File must contain at least a header and one question.'' \<and>
   questionsLoaded (parseAndValidateCSV (\<lambda>k. 0) 0 [] (upload0\<lparr>questionsLoaded := True\<rparr>)) = False"
  using too_few_rows_rejected [of "[]" "\<lambda>k. 0" 0 "upload0\<lparr>questionsLoaded := True\<rparr>"]
  by (simp add: parseCSV_empty)

subsection \<open>Shuffled answers\<close>

lemma mset_swap_le: "i < length xs \<Longrightarrow> j < length xs \<Longrightarrow> mset (swap i j xs) = mset xs"
  by (simp add: swap_def mset_swap)

lemma length_swap: "length (swap i j xs) = length xs"
  by (simp add: swap_def)

lemma mset_shuffleLoop: "i < length xs \<Longrightarrow> mset (shuffleLoop rand k i xs) = mset xs"
proof (induction i arbitrary: k xs)
  case 0
  then show ?case by simp
next
  case (Suc i)
  have j: "rand k mod (Suc i + 1) < length xs"
  proof -
    have "rand k mod (Suc i + 1) < Suc i + 1" by simp
    with Suc.prems show ?thesis by linarith
  qed
  have "mset (shuffleLoop rand (k + 1) i (swap (Suc i) (rand k mod (Suc i + 1)) xs)) =
        mset (swap (Suc i) (rand k mod (Suc i + 1)) xs)"
    using Suc.prems by (intro Suc.IH) (simp add: length_swap)
  then show ?case
    using Suc.prems j by (simp add: Let_def mset_swap_le)
qed

lemma mset_shuffleArray: "mset (shuffleArray rand k xs) = mset xs"
proof (cases xs)
  case Nil
  then show ?thesis by (simp add: shuffleArray_def)
next
  case (Cons a list)
  then show ?thesis by (simp add: shuffleArray_def mset_shuffleLoop)
qed

lemma indexOf_found:
  "x \<in> set xs \<Longrightarrow> 0 \<le> indexOf xs x \<and> indexOf xs x < int (length xs) \<and> xs ! nat (indexOf xs x) = x"
proof (induction xs)
  case Nil
  then show ?case by simp
next
  case (Cons y ys)
  show ?case
  proof (cases "y = x")
    case True
    then show ?thesis by simp
  next
    case False
    with Cons.prems have "x \<in> set ys" by simp
    from Cons.IH [OF this] False show ?thesis
      by (simp add: Let_def nat_add_distrib)
  qed
qed

lemma rowBody_accepted:
  assumes "accepts parts"
  shows "rowBody rand i parts st =
     st\<lparr>questions := questions st @
          [\<lparr>question = trim (parts ! 0),
            answers = shuffleArray rand (draws st)
              [trim (parts ! 1), trim (parts ! 2), trim (parts ! 3), trim (parts ! 4)],
            correct = indexOf
              (shuffleArray rand (draws st)
                 [trim (parts ! 1), trim (parts ! 2), trim (parts ! 3), trim (parts ! 4)])
              (trim (parts ! 1))\<rparr>],
        draws := draws st + 3\<rparr>"
proof -
  from assms have "parts \<noteq> []" "\<not> length parts < 5" by (auto simp add: accepts_def)
  with assms show ?thesis by (simp add: rowBody_def accepts_def Let_def)
qed

lemma rowBody_accepts:
  assumes "accepts parts"
  shows "\<exists>q. roundTrip parts q \<and>
           rowBody rand i parts st = st\<lparr>questions := questions st @ [q], draws := draws st + 3\<rparr>"
proof -
  let ?all = "[trim (parts ! 1), trim (parts ! 2), trim (parts ! 3), trim (parts ! 4)]"
  let ?sh = "shuffleArray rand (draws st) ?all"
  let ?q = "\<lparr>question = trim (parts ! 0), answers = ?sh, correct = indexOf ?sh (trim (parts ! 1))\<rparr>"
  have m: "mset ?sh = mset ?all" by (rule mset_shuffleArray)
  then have "set ?sh = set ?all" by (rule mset_eq_setD)
  then have "trim (parts ! 1) \<in> set ?sh" by simp
  from indexOf_found [OF this] have ix: "0 \<le> indexOf ?sh (trim (parts ! 1))"
    "indexOf ?sh (trim (parts ! 1)) < int (length ?sh)"
    "?sh ! nat (indexOf ?sh (trim (parts ! 1))) = trim (parts ! 1)" by simp_all
  have "length ?sh = length ?all" using m by (rule mset_eq_length)
  then have len: "length ?sh = 4" by simp
  have rt: "roundTrip parts ?q"
    using m ix len by (simp add: roundTrip_def)
  with rowBody_accepted [OF assms, of rand i st] show ?thesis by blast
qed

lemma rowBody_rejected:
  assumes "\<not> accepts parts"
  shows "rowBody rand i parts st = st \<or>
         (\<exists>msg. rowBody rand i parts st = st\<lparr>errorMessages := errorMessages st @ [msg]\<rparr>)"
proof (cases "length parts = 0 \<or> parts ! 0 = []")
  case True
  then have "rowBody rand i parts st = st" by (auto simp add: rowBody_def)
  then show ?thesis by blast
next
  case skip: False
  show ?thesis
  proof (cases "length parts < 5")
    case True
    with skip have "rowBody rand i parts st =
        st\<lparr>errorMessages := errorMessages st @ [notEnoughColumns i]\<rparr>"
      by (simp add: rowBody_def)
    then show ?thesis by blast
  next
    case cols: False
    show ?thesis
    proof (cases "trim (parts ! 0) = []")
      case True
      with skip cols have "rowBody rand i parts st =
          st\<lparr>errorMessages := errorMessages st @ [lineLabel i @ '': Question is empty'']\<rparr>"
        by (simp add: rowBody_def Let_def)
      then show ?thesis by blast
    next
      case q: False
      show ?thesis
      proof (cases "trim (parts ! 1) = []")
        case True
        with skip cols q have "rowBody rand i parts st =
            st\<lparr>errorMessages := errorMessages st @ [lineLabel i @ '': Correct answer is empty'']\<rparr>"
          by (simp add: rowBody_def Let_def)
        then show ?thesis by blast
      next
        case c: False
        with skip cols q assms
        have "trim (parts ! 2) = [] \<or> trim (parts ! 3) = [] \<or> trim (parts ! 4) = []"
          by (simp add: accepts_def)
        with skip cols q c have "rowBody rand i parts st =
            st\<lparr>errorMessages := errorMessages st @
              [lineLabel i @ '': One or more wrong answers are empty'']\<rparr>"
          by (simp add: rowBody_def Let_def)
        then show ?thesis by blast
      qed
    qed
  qed
qed

lemma rowBody_rejects:
  assumes "\<not> accepts parts"
  shows "questions (rowBody rand i parts st) = questions st \<and>
         draws (rowBody rand i parts st) = draws st"
  using rowBody_rejected [OF assms, of rand i st] by auto

lemma rowsLoop_round_trip:
  "\<exists>qs. questions (rowsLoop rand i rws st) = questions st @ qs \<and>
        list_all2 roundTrip (filter accepts rws) qs"
proof (induction rws arbitrary: i st)
  case Nil
  then show ?case by simp
next
  case (Cons parts rest)
  show ?case
  proof (cases "accepts parts")
    case True
    from rowBody_accepts [OF True, of rand i st] obtain q where
      q: "roundTrip parts q"
      "rowBody rand i parts st = st\<lparr>questions := questions st @ [q], draws := draws st + 3\<rparr>"
      by blast
    from Cons.IH [of "i + 1" "rowBody rand i parts st"] obtain qs where
      qs: "questions (rowsLoop rand (i + 1) rest (rowBody rand i parts st)) =
             questions (rowBody rand i parts st) @ qs"
      "list_all2 roundTrip (filter accepts rest) qs" by blast
    have "questions (rowsLoop rand i (parts # rest) st) = questions st @ (q # qs)"
      using q qs by simp
    moreover have "list_all2 roundTrip (filter accepts (parts # rest)) (q # qs)"
      using True q qs by simp
    ultimately show ?thesis by blast
  next
    case False
    from Cons.IH [of "i + 1" "rowBody rand i parts st"] obtain qs where
      qs: "questions (rowsLoop rand (i + 1) rest (rowBody rand i parts st)) =
             questions (rowBody rand i parts st) @ qs"
      "list_all2 roundTrip (filter accepts rest) qs" by blast
    then show ?thesis
      using False rowBody_rejects [OF False, of rand i st] by auto
  qed
qed

text \<open>
  Claim C4. Whatever the random numbers are, the questions the validator produces are, in
  order, one for each accepted row, and each of them keeps the round trip: its answers are
  a permutation of the four trimmed answer fields of its row, and the answer at index
  \<open>correct\<close> is the trimmed correct answer of the row.
\<close>

theorem accepted_rows_round_trip:
  "list_all2 roundTrip (filter accepts (drop 1 rws)) (questions (validateRows rand k rws))"
  using rowsLoop_round_trip [of rand 1 "drop 1 rws" "\<lparr>questions = [], errorMessages = [], draws = k\<rparr>"]
  by (auto simp add: validateRows_def)

theorem accepted_rows_round_trip_witness:
  "filter accepts (drop 1 (parseCSV oneQuestionFile)) = [[''q'', ''a'', ''b'', ''c'', ''d'']] \<and>
   questions (validateRows firstIndex 0 (parseCSV oneQuestionFile)) =
     [\<lparr>question = ''q'', answers = [''b'', ''c'', ''d'', ''a''], correct = 3\<rparr>] \<and>
   list_all2 roundTrip (filter accepts (drop 1 (parseCSV oneQuestionFile)))
     (questions (validateRows firstIndex 0 (parseCSV oneQuestionFile)))"
proof -
  have "filter accepts (drop 1 (parseCSV oneQuestionFile)) = [[''q'', ''a'', ''b'', ''c'', ''d'']]"
    by code_simp
  moreover have "questions (validateRows firstIndex 0 (parseCSV oneQuestionFile)) =
     [\<lparr>question = ''q'', answers = [''b'', ''c'', ''d'', ''a''], correct = 3\<rparr>]"
    by code_simp
  ultimately show ?thesis
    using accepted_rows_round_trip [of "parseCSV oneQuestionFile" firstIndex 0] by simp
qed

subsection \<open>Rows with too few columns\<close>

lemma rowsLoop_append:
  "rowsLoop rand i (xs @ ys) st = rowsLoop rand (i + length xs) ys (rowsLoop rand i xs st)"
  by (induction xs arbitrary: i st) simp_all

lemma rowBody_questions_cong:
  assumes "questions st = questions st'" "draws st = draws st'"
  shows "questions (rowBody rand i parts st) = questions (rowBody rand j parts st') \<and>
         draws (rowBody rand i parts st) = draws (rowBody rand j parts st')"
proof (cases "accepts parts")
  case True
  show ?thesis
    using assms by (simp add: rowBody_accepted [OF True])
next
  case False
  from rowBody_rejects [OF False, of rand i st] rowBody_rejects [OF False, of rand j st'] assms
  show ?thesis by simp
qed

lemma rowsLoop_questions_cong:
  assumes "questions st = questions st'" "draws st = draws st'"
  shows "questions (rowsLoop rand i rws st) = questions (rowsLoop rand j rws st')"
  using assms
proof (induction rws arbitrary: i j st st')
  case Nil
  then show ?case by simp
next
  case (Cons parts rest)
  from rowBody_questions_cong [OF Cons.prems, of rand i parts j]
  have "questions (rowBody rand i parts st) = questions (rowBody rand j parts st')"
    "draws (rowBody rand i parts st) = draws (rowBody rand j parts st')" by simp_all
  then have "questions (rowsLoop rand (i + 1) rest (rowBody rand i parts st)) =
      questions (rowsLoop rand (j + 1) rest (rowBody rand j parts st'))"
    by (rule Cons.IH)
  then show ?case by simp
qed

lemma rowBody_keeps_errors:
  "set (errorMessages st) \<subseteq> set (errorMessages (rowBody rand i parts st))"
proof (cases "accepts parts")
  case True
  then show ?thesis by (simp add: rowBody_accepted)
next
  case False
  from rowBody_rejected [OF False, of rand i st] show ?thesis by auto
qed

lemma rowsLoop_keeps_errors:
  "set (errorMessages st) \<subseteq> set (errorMessages (rowsLoop rand i rws st))"
proof (induction rws arbitrary: i st)
  case Nil
  then show ?case by simp
next
  case (Cons parts rest)
  have "set (errorMessages st) \<subseteq> set (errorMessages (rowBody rand i parts st))"
    by (rule rowBody_keeps_errors)
  also have "\<dots> \<subseteq> set (errorMessages (rowsLoop rand (i + 1) rest (rowBody rand i parts st)))"
    by (rule Cons.IH)
  finally show ?case by simp
qed

lemma rowBody_short:
  assumes "parts \<noteq> []" "parts ! 0 \<noteq> []" "length parts < 5"
  shows "rowBody rand i parts st = st\<lparr>errorMessages := errorMessages st @ [notEnoughColumns i]\<rparr>"
  using assms by (simp add: rowBody_def)

lemma split_at_row:
  assumes "1 \<le> i" "i < length rws"
  shows "drop 1 rws = drop 1 (take i rws) @ rws ! i # drop (Suc i) rws"
proof -
  have "drop 1 rws = drop 1 (take i rws @ rws ! i # drop (Suc i) rws)"
    by (rule arg_cong [OF id_take_nth_drop [OF assms(2)]])
  also have "\<dots> = drop 1 (take i rws) @ rws ! i # drop (Suc i) rws"
    using assms by simp
  finally show ?thesis .
qed

lemma rowsLoop_short_row:
  assumes "parts \<noteq> []" "parts ! 0 \<noteq> []" "length parts < 5"
  shows "rowsLoop rand j (pre @ parts # post) st =
           rowsLoop rand (j + length pre + 1) post
             ((rowsLoop rand j pre st)
                \<lparr>errorMessages := errorMessages (rowsLoop rand j pre st) @
                   [notEnoughColumns (j + length pre)]\<rparr>)"
  by (simp add: rowsLoop_append rowBody_short [OF assms])

lemma rowsLoop_without_row:
  assumes "\<not> accepts parts"
  shows "questions (rowsLoop rand j (pre @ parts # post) st) =
         questions (rowsLoop rand j (pre @ post) st)"
proof -
  have "questions (rowsLoop rand (j + length pre + 1) post
          (rowBody rand (j + length pre) parts (rowsLoop rand j pre st))) =
        questions (rowsLoop rand (j + length pre) post (rowsLoop rand j pre st))"
    using rowBody_rejects [OF assms] by (intro rowsLoop_questions_cong) simp_all
  then show ?thesis by (simp add: rowsLoop_append)
qed

lemma short_row_steps:
  assumes "1 \<le> i" "i < length rws"
    and "rws ! i \<noteq> []" "rws ! i ! 0 \<noteq> []" "length (rws ! i) < 5"
  shows "validateRows rand k rws =
           rowsLoop rand (i + 1) (drop (Suc i) rws)
             ((validateRows rand k (take i rws))
                \<lparr>errorMessages := errorMessages (validateRows rand k (take i rws)) @
                   [''Line '' @ showNat (i + 1) @
                    '': Not enough columns (need at least 5: question + 4 answers)'']\<rparr>)"
    and "''Line '' @ showNat (i + 1) @
           '': Not enough columns (need at least 5: question + 4 answers)''
         \<in> set (errorMessages (validateRows rand k rws))"
    and "questions (validateRows rand k rws) =
         questions (validateRows rand k (take i rws @ drop (Suc i) rws))"
proof -
  let ?start = "\<lparr>questions = [], errorMessages = [], draws = k\<rparr>"
  let ?pre = "drop 1 (take i rws)"
  let ?post = "drop (Suc i) rws"
  let ?before = "validateRows rand k (take i rws)"
  let ?msg = "''Line '' @ showNat (i + 1) @
                '': Not enough columns (need at least 5: question + 4 answers)''"
  let ?after = "?before\<lparr>errorMessages := errorMessages ?before @ [?msg]\<rparr>"
  have msg: "notEnoughColumns i = ?msg"
    by (simp add: notEnoughColumns_def lineLabel_def)
  have len: "1 + length ?pre = i"
    using assms(1,2) by simp
  have before: "rowsLoop rand 1 ?pre ?start = ?before"
    by (simp only: validateRows_def)
  have "validateRows rand k rws = rowsLoop rand 1 (drop 1 rws) ?start"
    by (simp only: validateRows_def)
  also have "\<dots> = rowsLoop rand 1 (?pre @ rws ! i # ?post) ?start"
    by (subst split_at_row [OF assms(1,2)]) (rule refl)
  also have "\<dots> = rowsLoop rand (1 + length ?pre + 1) ?post
      ((rowsLoop rand 1 ?pre ?start)
        \<lparr>errorMessages := errorMessages (rowsLoop rand 1 ?pre ?start) @
           [notEnoughColumns (1 + length ?pre)]\<rparr>)"
    by (rule rowsLoop_short_row [OF assms(3-5)])
  also have "\<dots> = rowsLoop rand (i + 1) ?post ?after"
    by (simp only: len before msg)
  finally show eq: "validateRows rand k rws = rowsLoop rand (i + 1) ?post ?after" .
  have "?msg \<in> set (errorMessages ?after)"
    by simp
  moreover have "set (errorMessages ?after) \<subseteq>
      set (errorMessages (rowsLoop rand (i + 1) ?post ?after))"
    by (rule rowsLoop_keeps_errors)
  ultimately have "?msg \<in> set (errorMessages (rowsLoop rand (i + 1) ?post ?after))"
    by (rule subsetD [rotated])
  then show "?msg \<in> set (errorMessages (validateRows rand k rws))"
    by (simp only: eq)
  have na: "\<not> accepts (rws ! i)"
    using assms(5) by (simp add: accepts_def)
  have d: "drop 1 (take i rws @ ?post) = ?pre @ ?post"
    using assms(1,2) by simp
  have "questions (validateRows rand k rws) =
      questions (rowsLoop rand 1 (?pre @ rws ! i # ?post) ?start)"
    by (subst split_at_row [OF assms(1,2), symmetric]) (simp only: validateRows_def)
  also have "\<dots> = questions (rowsLoop rand 1 (?pre @ ?post) ?start)"
    by (rule rowsLoop_without_row [OF na])
  also have "\<dots> = questions (validateRows rand k (take i rws @ ?post))"
    by (simp only: validateRows_def d)
  finally show "questions (validateRows rand k rws) =
      questions (validateRows rand k (take i rws @ drop (Suc i) rws))" .
qed

text \<open>
  Claim C6. A row at index \<open>i\<close> of the parsed rows, not the header, with a first field that
  is not empty and fewer than 5 fields: the loop appends to the messages it has after the
  rows before exactly the string \<open>Line i+1: Not enough columns ...\<close>, changes nothing else
  and goes on with the next row; the message is among the messages at the end, and the
  accepted questions are those of the same rows without row \<open>i\<close>.
\<close>

theorem short_row_reported:
  assumes "1 \<le> i" "i < length rws"
    and "rws ! i \<noteq> []" "rws ! i ! 0 \<noteq> []" "length (rws ! i) < 5"
  shows "validateRows rand k rws =
           rowsLoop rand (i + 1) (drop (Suc i) rws)
             ((validateRows rand k (take i rws))
                \<lparr>errorMessages := errorMessages (validateRows rand k (take i rws)) @
                   [''Line '' @ showNat (i + 1) @
                    '': Not enough columns (need at least 5: question + 4 answers)'']\<rparr>) \<and>
         ''Line '' @ showNat (i + 1) @
           '': Not enough columns (need at least 5: question + 4 answers)''
           \<in> set (errorMessages (validateRows rand k rws)) \<and>
         questions (validateRows rand k rws) =
           questions (validateRows rand k (take i rws @ drop (Suc i) rws))"
  using short_row_steps [OF assms] by blast

theorem short_row_reported_witness:
  "(1::nat) \<le> 2 \<and> 2 < length (parseCSV oneQuestionFile) \<and>
   parseCSV oneQuestionFile ! 2 = [''x'', ''y''] \<and>
   ''Line 3: Not enough columns (need at least 5: question + 4 answers)''
     \<in> set (errorMessages (validateRows firstIndex 0 (parseCSV oneQuestionFile))) \<and>
   questions (validateRows firstIndex 0 (parseCSV oneQuestionFile)) =
     questions (validateRows firstIndex 0
       (take 2 (parseCSV oneQuestionFile) @ drop (Suc 2) (parseCSV oneQuestionFile)))"
proof -
  have o: "(1::nat) \<le> 2" by simp
  have r: "parseCSV oneQuestionFile ! 2 = [''x'', ''y'']" by code_simp
  have l: "2 < length (parseCSV oneQuestionFile)" by code_simp
  have n: "showNat 3 = ''3''" by code_simp
  have "parseCSV oneQuestionFile ! 2 \<noteq> []" "parseCSV oneQuestionFile ! 2 ! 0 \<noteq> []"
    "length (parseCSV oneQuestionFile ! 2) < 5"
    by (simp_all add: r)
  note t = short_row_reported [OF o l this, of firstIndex 0]
  have "''Line 3: Not enough columns (need at least 5: question + 4 answers)''
     \<in> set (errorMessages (validateRows firstIndex 0 (parseCSV oneQuestionFile)))"
    using t [THEN conjunct2, THEN conjunct1] by (simp add: n)
  with o r l t [THEN conjunct2, THEN conjunct2] show ?thesis
    by blast
qed

subsection \<open>Fewer accepted questions than a round needs\<close>

text \<open>
  Claim C7 as it stands says that the message is always the one that names the minimum.
  A file with a header and one row of two fields, under a minimum of 4: no question is
  accepted and one row error is recorded, so the check before gives the list of errors.
\<close>

theorem minimum_message_counterexample:
  "int (length (questions (validateRows firstIndex 0 (parseCSV shortRowFile))))
     < questionsPerRound upload0 \<and>
   uploadError (parseAndValidateCSV firstIndex 0 shortRowFile upload0) =
     Some (''Errors found:'' @ [LF] @
           ''Line 2: Not enough columns (need at least 5: question + 4 answers)'') \<and>
   uploadError (parseAndValidateCSV firstIndex 0 shortRowFile upload0) \<noteq>
     Some ''Need at least 4 valid questions. Found only 0.''"
  by code_simp

text \<open>
  Claim C7, amended. Whenever fewer questions are accepted than \<open>questionsPerRound\<close>,
  validation fails: the loaded-questions flag is cleared and the stored questions and
  their count stay as they were, so no part of the file is accepted. The message names
  the minimum and the number found, unless an earlier check has answered: fewer than two
  rows give the message about the header, and no accepted question together with at
  least one row error gives the first three errors.
\<close>

theorem below_minimum_rejected:
  assumes "int (length (questions (validateRows rand k (parseCSV csvText)))) < questionsPerRound s"
  shows "questionsLoaded (parseAndValidateCSV rand k csvText s) = False \<and>
         uploadedQuestions (parseAndValidateCSV rand k csvText s) = uploadedQuestions s \<and>
         questionCount (parseAndValidateCSV rand k csvText s) = questionCount s \<and>
         uploadError (parseAndValidateCSV rand k csvText s) =
           Some (if length (parseCSV csvText) < 2 then
                   ''File must contain at least a header and one question.''
                 else if errorMessages (validateRows rand k (parseCSV csvText)) \<noteq> [] \<and>
                         questions (validateRows rand k (parseCSV csvText)) = [] then
                   ''Errors found:'' @ [LF] @
                   join [LF] (take 3 (errorMessages (validateRows rand k (parseCSV csvText))))
                 else
                   ''Need at least '' @ showInt (questionsPerRound s) @
                   '' valid questions. Found only '' @
                   showNat (length (questions (validateRows rand k (parseCSV csvText)))) @ ''.'')"
  using assms
  by (simp add: parseAndValidateCSV_def Let_def headerMissing_def errorsFound_def needAtLeast_def)

theorem below_minimum_rejected_witness:
  "int (length (questions (validateRows firstIndex 0 (parseCSV oneQuestionFile))))
     < questionsPerRound upload0 \<and>
   questionsLoaded (parseAndValidateCSV firstIndex 0 oneQuestionFile upload0) = False \<and>
   uploadedQuestions (parseAndValidateCSV firstIndex 0 oneQuestionFile upload0) = [] \<and>
   uploadError (parseAndValidateCSV firstIndex 0 oneQuestionFile upload0) =
     Some ''Need at least 4 valid questions. Found only 1.''"
proof -
  have h: "int (length (questions (validateRows firstIndex 0 (parseCSV oneQuestionFile))))
     < questionsPerRound upload0" by code_simp
  have e: "uploadError (parseAndValidateCSV firstIndex 0 oneQuestionFile upload0) =
     Some ''Need at least 4 valid questions. Found only 1.''" by code_simp
  have u: "uploadedQuestions upload0 = []" by (simp add: upload0_def)
  from below_minimum_rejected [OF h] h e u show ?thesis by simp
qed

subsection \<open>Submitting a round\<close>

lemma countCorrect_filter:
  "countCorrect qss n =
     n + length (filter (\<lambda>qs. selected qs = Some (correct (qsQuestion qs))) qss)"
  by (induction qss arbitrary: n) simp_all

lemma fire_keeps_flags:
  assumes "timeExpired s \<longrightarrow> roundComplete s"
  shows "timeExpired (fire e s) \<longrightarrow> roundComplete (fire e s)"
proof (cases e)
  case (LoadQuestionsFromData qs shuffled theme)
  with assms show ?thesis
    by (simp add: loadQuestionsFromData_def startNewRound_def startTimer_def stopTimer_def Let_def)
next
  case (SetQuestionsPerRound n)
  with assms show ?thesis by (simp add: setQuestionsPerRound_def)
next
  case (SetTimeLimit n)
  with assms show ?thesis by (simp add: setTimeLimit_def)
next
  case Tick
  with assms show ?thesis by (simp add: tick_def timerCallback_def stopTimer_def Let_def)
next
  case (SelectAnswer i a)
  with assms show ?thesis by (auto simp add: selectAnswer_def)
next
  case SubmitAnswers
  with assms show ?thesis by (simp add: submitAnswers_def stopTimer_def Let_def)
next
  case (NextRound shuffled theme)
  with assms show ?thesis
    by (simp add: nextRound_def startNewRound_def startTimer_def stopTimer_def Let_def)
next
  case GoBack
  with assms show ?thesis by (simp add: goBack_def stopTimer_def)
next
  case (NgOnInit inputQuestions loaded shuffled theme)
  with assms show ?thesis
    by (simp add: ngOnInit_def startNewRound_def startTimer_def stopTimer_def Let_def
        split: option.split)
next
  case NgOnDestroy
  with assms show ?thesis by (simp add: ngOnDestroy_def stopTimer_def)
qed

lemma run_keeps_flags:
  "timeExpired s \<longrightarrow> roundComplete s \<Longrightarrow> timeExpired (run es s) \<longrightarrow> roundComplete (run es s)"
proof (induction es arbitrary: s)
  case Nil
  then show ?case by simp
next
  case (Cons e es)
  from fire_keeps_flags [OF Cons.prems]
  have "timeExpired (run es (fire e s)) \<longrightarrow> roundComplete (run es (fire e s))"
    by (rule Cons.IH)
  then show ?case by simp
qed

lemma active_not_expired: "\<not> roundComplete (run es created) \<Longrightarrow> \<not> timeExpired (run es created)"
  using run_keeps_flags [of created es] by (auto simp add: created_def)

lemma canSubmit_iff:
  "canSubmit s \<longleftrightarrow> phaseOf s = Active \<and> (\<forall>qs \<in> set (questionSets s). selected qs \<noteq> None)"
  by (simp add: canSubmit_def phaseOf_def list_all_iff)

lemma submit_refused: "\<not> canSubmit s \<Longrightarrow> submitAnswers s = s"
  by (auto simp add: canSubmit_def submitAnswers_def Let_def)

lemma submit_accepted:
  assumes "canSubmit s" "\<not> timeExpired s"
  shows "timerInterval (submitAnswers s) = False"
    and "currentRoundCorrect (submitAnswers s) =
           length (filter (\<lambda>qs. selected qs = Some (correct (qsQuestion qs))) (questionSets s))"
    and "currentRoundTotal (submitAnswers s) = length (questionSets s)"
    and "phaseOf (submitAnswers s) = Complete Submitted"
    and "questionSets (submitAnswers s) = questionSets s"
  using assms
  by (simp_all add: canSubmit_def submitAnswers_def stopTimer_def Let_def phaseOf_def
      countCorrect_filter)

text \<open>
  Claim C5. In every state the component reaches from its creation, \<open>canSubmit\<close> holds
  exactly when the round is active and every question has a selection; \<open>submitAnswers\<close>
  changes nothing unless \<open>canSubmit\<close> holds; and when it holds, \<open>submitAnswers\<close> disarms the
  timer, sets the round's correct count to the number of questions whose selection is the
  question's \<open>correct\<close> index, sets the round's total to the number of questions, and leaves
  the round complete by submission.
\<close>

theorem submit_gated_and_scored:
  "(canSubmit (run es created) \<longleftrightarrow>
      phaseOf (run es created) = Active \<and>
      (\<forall>qs \<in> set (questionSets (run es created)). selected qs \<noteq> None)) \<and>
   (\<not> canSubmit (run es created) \<longrightarrow> submitAnswers (run es created) = run es created) \<and>
   (canSubmit (run es created) \<longrightarrow>
      timerInterval (submitAnswers (run es created)) = False \<and>
      currentRoundCorrect (submitAnswers (run es created)) =
        length (filter (\<lambda>qs. selected qs = Some (correct (qsQuestion qs)))
                  (questionSets (run es created))) \<and>
      currentRoundTotal (submitAnswers (run es created)) = length (questionSets (run es created)) \<and>
      phaseOf (submitAnswers (run es created)) = Complete Submitted)"
proof (intro conjI impI)
  show "canSubmit (run es created) \<longleftrightarrow>
      phaseOf (run es created) = Active \<and>
      (\<forall>qs \<in> set (questionSets (run es created)). selected qs \<noteq> None)"
    by (rule canSubmit_iff)
next
  assume "\<not> canSubmit (run es created)"
  then show "submitAnswers (run es created) = run es created" by (rule submit_refused)
next
  assume c: "canSubmit (run es created)"
  then have "\<not> roundComplete (run es created)" by (simp add: canSubmit_def)
  then have e: "\<not> timeExpired (run es created)" by (rule active_not_expired)
  note r = submit_accepted [OF c e]
  show "timerInterval (submitAnswers (run es created)) = False" by (rule r)
  show "currentRoundCorrect (submitAnswers (run es created)) =
        length (filter (\<lambda>qs. selected qs = Some (correct (qsQuestion qs)))
                  (questionSets (run es created)))" by (rule r)
  show "currentRoundTotal (submitAnswers (run es created)) = length (questionSets (run es created))"
    by (rule r)
  show "phaseOf (submitAnswers (run es created)) = Complete Submitted" by (rule r)
qed

theorem submit_gated_and_scored_witness:
  "canSubmit (run answeredRound created) \<and>
   map selected (questionSets (run answeredRound created)) = [Some 1, Some 2] \<and>
   timerInterval (run answeredRound created) = True \<and>
   timerInterval (submitAnswers (run answeredRound created)) = False \<and>
   currentRoundCorrect (submitAnswers (run answeredRound created)) = 1 \<and>
   currentRoundTotal (submitAnswers (run answeredRound created)) = 2 \<and>
   phaseOf (submitAnswers (run answeredRound created)) = Complete Submitted \<and>
   \<not> canSubmit (submitAnswers (run answeredRound created)) \<and>
   submitAnswers (submitAnswers (run answeredRound created)) =
     submitAnswers (run answeredRound created)"
proof -
  have c: "canSubmit (run answeredRound created)" by code_simp
  have m: "map selected (questionSets (run answeredRound created)) = [Some 1, Some 2]"
    by code_simp
  have t: "timerInterval (run answeredRound created) = True" by code_simp
  have n: "length (filter (\<lambda>qs. selected qs = Some (correct (qsQuestion qs)))
                  (questionSets (run answeredRound created))) = 1" by code_simp
  have l: "length (questionSets (run answeredRound created)) = 2" by code_simp
  have d: "\<not> canSubmit (run (answeredRound @ [SubmitAnswers]) created)" by code_simp
  have a: "run (answeredRound @ [SubmitAnswers]) created = submitAnswers (run answeredRound created)"
    by code_simp
  from submit_gated_and_scored [of answeredRound] c
  have "timerInterval (submitAnswers (run answeredRound created)) = False"
    "currentRoundCorrect (submitAnswers (run answeredRound created)) = 1"
    "currentRoundTotal (submitAnswers (run answeredRound created)) = 2"
    "phaseOf (submitAnswers (run answeredRound created)) = Complete Submitted"
    by (simp_all add: n l)
  moreover from submit_gated_and_scored [of "answeredRound @ [SubmitAnswers]"] d
  have "submitAnswers (submitAnswers (run answeredRound created)) =
     submitAnswers (run answeredRound created)"
    by (simp add: a)
  ultimately show ?thesis using c m t d a by simp
qed

subsection \<open>The countdown\<close>

text \<open>
  Claim C2 says that a round of one second is over after one tick. In the code the
  callback that finds 1 second left only counts down to 0; the round is still active, a
  selection is still stored, and the round ends with the second tick. After that
  \<open>selectAnswer\<close> changes nothing.
\<close>

theorem one_tick_leaves_round_active:
  "timeLimitSeconds oneSecondRound = 1 \<and> timeRemaining oneSecondRound = 1 \<and>
   phaseOf oneSecondRound = Active \<and>
   timeRemaining (tick oneSecondRound) = 0 \<and>
   phaseOf (tick oneSecondRound) = Active \<and>
   timeExpired (tick oneSecondRound) = False \<and>
   map selected (questionSets (tick oneSecondRound)) = [None, None] \<and>
   map selected (questionSets (fire (SelectAnswer 0 2) (tick oneSecondRound))) = [Some 2, None] \<and>
   phaseOf (tick (tick oneSecondRound)) = Complete TimedOut \<and>
   timeExpired (tick (tick oneSecondRound)) = True \<and>
   selectAnswer 0 2 (tick (tick oneSecondRound)) = Inr (tick (tick oneSecondRound))"
  by code_simp

lemma expiry_on_second_tick:
  "phaseOf (tick (startNewRound shuffled theme (setTimeLimit 1 s))) = Active \<and>
   phaseOf (tick (tick (startNewRound shuffled theme (setTimeLimit 1 s)))) = Complete TimedOut"
  by (simp add: tick_def timerCallback_def startNewRound_def startTimer_def stopTimer_def
      setTimeLimit_def phaseOf_def Let_def)

lemma selectAnswer_after_completion:
  "roundComplete s \<Longrightarrow> selectAnswer questionIndex answerIndex s = Inr s"
  by (simp add: selectAnswer_def)

text \<open>
  In general a round started with a limit of \<open>n\<close> seconds is still active after \<open>n\<close> ticks
  and is timed out by the tick after.
\<close>

lemma ticks_count_down:
  "timerInterval s \<Longrightarrow> timeRemaining s = int k \<Longrightarrow> (tick ^^ k) s = s\<lparr>timeRemaining := 0\<rparr>"
proof (induction k arbitrary: s)
  case 0
  then show ?case by simp
next
  case (Suc k)
  have t: "tick s = s\<lparr>timeRemaining := int k\<rparr>"
    using Suc.prems by (simp add: tick_def timerCallback_def Let_def)
  have "(tick ^^ Suc k) s = (tick ^^ k) (tick s)"
    by (simp only: funpow_Suc_right o_apply)
  also have "\<dots> = (tick s)\<lparr>timeRemaining := 0\<rparr>"
    using Suc.prems t by (intro Suc.IH) simp_all
  finally show ?case by (simp add: t)
qed

lemma round_lasts_one_more_tick:
  assumes "0 \<le> timeLimitSeconds s"
  shows "phaseOf ((tick ^^ nat (timeLimitSeconds s)) (startNewRound shuffled theme s)) = Active \<and>
         phaseOf ((tick ^^ (nat (timeLimitSeconds s) + 1)) (startNewRound shuffled theme s)) =
           Complete TimedOut"
proof -
  let ?s0 = "startNewRound shuffled theme s"
  let ?n = "nat (timeLimitSeconds s)"
  have a: "timerInterval ?s0" "timeRemaining ?s0 = int ?n" "\<not> roundComplete ?s0"
    using assms by (simp_all add: startNewRound_def startTimer_def stopTimer_def Let_def)
  then have n: "(tick ^^ ?n) ?s0 = ?s0\<lparr>timeRemaining := 0\<rparr>"
    by (intro ticks_count_down)
  have "(tick ^^ (?n + 1)) ?s0 = tick ((tick ^^ ?n) ?s0)" by simp
  then have "(tick ^^ (?n + 1)) ?s0 = tick (?s0\<lparr>timeRemaining := 0\<rparr>)"
    by (simp only: n)
  then show ?thesis
    using a n by (simp add: phaseOf_def tick_def timerCallback_def stopTimer_def Let_def)
qed

subsection \<open>Session totals and the percentage\<close>

lemma totals_step:
  assumes "e \<noteq> GoBack"
  shows "cumulativeCorrect (fire e s) =
           cumulativeCorrect s +
           (if e = SubmitAnswers \<and> canSubmit s then countCorrect (questionSets s) 0 else 0) \<and>
         cumulativeTotal (fire e s) =
           cumulativeTotal s +
           (if e = SubmitAnswers \<and> canSubmit s then length (questionSets s) else 0)"
proof (cases e)
  case (LoadQuestionsFromData qs shuffled theme)
  then show ?thesis
    by (simp add: loadQuestionsFromData_def startNewRound_def startTimer_def stopTimer_def Let_def)
next
  case (SetQuestionsPerRound n)
  then show ?thesis by (simp add: setQuestionsPerRound_def)
next
  case (SetTimeLimit n)
  then show ?thesis by (simp add: setTimeLimit_def)
next
  case Tick
  then show ?thesis by (simp add: tick_def timerCallback_def stopTimer_def Let_def)
next
  case (SelectAnswer i a)
  then show ?thesis by (auto simp add: selectAnswer_def)
next
  case SubmitAnswers
  then show ?thesis by (simp add: submitAnswers_def canSubmit_def stopTimer_def Let_def)
next
  case (NextRound shuffled theme)
  then show ?thesis
    by (simp add: nextRound_def startNewRound_def startTimer_def stopTimer_def Let_def)
next
  case GoBack
  with assms show ?thesis by simp
next
  case (NgOnInit inputQuestions loaded shuffled theme)
  then show ?thesis
    by (simp add: ngOnInit_def startNewRound_def startTimer_def stopTimer_def Let_def
        split: option.split)
next
  case NgOnDestroy
  then show ?thesis by (simp add: ngOnDestroy_def stopTimer_def)
qed

lemma roundedPercent_exact:
  assumes "t \<noteq> 0"
  shows "int (roundedPercent c t) = \<lfloor>100 * real c / real t + 1 / 2\<rfloor>"
proof -
  have "100 * real c / real t + 1 / 2 = real (2 * (100 * c) + t) / real (2 * t)"
    using assms by (simp add: field_simps)
  then have "\<lfloor>100 * real c / real t + 1 / 2\<rfloor> = \<lfloor>real (2 * (100 * c) + t) / real (2 * t)\<rfloor>"
    by simp
  also have "\<dots> = int ((2 * (100 * c) + t) div (2 * t))"
    by (rule floor_divide_of_nat_eq)
  finally show ?thesis using assms by (simp add: roundedPercent_def)
qed

lemma bitLength_23_40: "bitLength 23 = 5" "bitLength 40 = 6"
  by (simp_all add: bitLength.simps)

lemma divDouble_23_40: "divDouble 23 40 = (5179139571476070, - 53)"
  by (simp add: divDouble_def toDouble_def floorLog2_def nearestEven_def bitLength_23_40 Let_def)

lemma bitLength_product: "bitLength 517913957147607000 = 59"
  by (simp add: bitLength.simps)

lemma bitLength_2_53: "bitLength 9007199254740992 = 54"
  by (simp add: bitLength.simps)

lemma mulDouble_23_40: "mulDouble (5179139571476070, - 53) 100 = (8092405580431359, - 47)"
  by (simp add: mulDouble_def toDouble_def floorLog2_def nearestEven_def bitLength_product bitLength_2_53 Let_def)

lemma mathRound_23_40: "mathRound (8092405580431359, - 47) = 57"
  by (simp add: mathRound_def)

lemma percent_23_40: "getCumulativePercent (created\<lparr>cumulativeCorrect := 23, cumulativeTotal := 40\<rparr>) = 57"
  by (simp add: getCumulativePercent_def divDouble_23_40 mulDouble_23_40 mathRound_23_40)

lemma ten_rounds_totals:
  "cumulativeCorrect (run tenRounds created) = 23 \<and>
   cumulativeTotal (run tenRounds created) = 40 \<and>
   currentRound (run tenRounds created) = 10"
  by code_simp

text \<open>
  Claim C9 says that the percentage is \<open>100 * correct / total\<close> rounded. Ten submitted
  rounds of four questions with 23 correct answers in all leave the totals at 23 and 40;
  \<open>(23 / 40) * 100\<close> in double precision is just below 57.5, so the code shows 57, while
  \<open>100 * 23 / 40 = 57.5\<close> rounds to 58.
\<close>

theorem percent_of_23_in_40:
  "cumulativeCorrect (run tenRounds created) = 23 \<and>
   cumulativeTotal (run tenRounds created) = 40 \<and>
   getCumulativePercent (run tenRounds created) = 57 \<and>
   roundedPercent 23 40 = 58"
proof -
  have "getCumulativePercent (run tenRounds created) = 57"
    by (simp add: getCumulativePercent_def ten_rounds_totals divDouble_23_40 mulDouble_23_40
        mathRound_23_40)
  moreover have "roundedPercent 23 40 = 58"
    by (simp add: roundedPercent_def)
  ultimately show ?thesis using ten_rounds_totals by simp
qed

subsection \<open>The scanner on runs of characters\<close>

lemma scan_plain_char:
  assumes "\<not> inQuotes st" "c \<noteq> COMMA" "c \<noteq> LF" "c \<noteq> CR" "c = DQ \<longrightarrow> currentField st \<noteq> []"
  shows "scan st (c # rest) = scan (st\<lparr>currentField := currentField st @ [c]\<rparr>) rest"
  using assms by simp

lemma scan_mid_field:
  assumes "\<not> inQuotes st" "currentField st \<noteq> []"
    and "list_all (\<lambda>c. c \<noteq> COMMA \<and> c \<noteq> LF \<and> c \<noteq> CR) raw"
  shows "scan st (raw @ rest) = scan (st\<lparr>currentField := currentField st @ raw\<rparr>) rest"
  using assms
proof (induction raw arbitrary: st)
  case Nil
  then show ?case by simp
next
  case (Cons c raw)
  let ?st = "st\<lparr>currentField := currentField st @ [c]\<rparr>"
  have "scan st ((c # raw) @ rest) = scan ?st (raw @ rest)"
    using Cons.prems scan_plain_char [of st c "raw @ rest"] by simp
  also have "\<dots> = scan (?st\<lparr>currentField := currentField ?st @ raw\<rparr>) rest"
    using Cons.prems by (intro Cons.IH) simp_all
  finally show ?case by simp
qed

lemma scan_raw:
  assumes "\<not> inQuotes st" "rawText raw"
  shows "scan st (raw @ rest) = scan (st\<lparr>currentField := currentField st @ raw\<rparr>) rest"
proof (cases raw)
  case Nil
  then show ?thesis by simp
next
  case (Cons c cs)
  let ?st = "st\<lparr>currentField := currentField st @ [c]\<rparr>"
  from assms(2) Cons have c: "c \<noteq> COMMA" "c \<noteq> LF" "c \<noteq> CR" "c \<noteq> DQ"
    and cs: "list_all (\<lambda>c. c \<noteq> COMMA \<and> c \<noteq> LF \<and> c \<noteq> CR) cs"
    by (simp_all add: rawText_def)
  have "scan st (raw @ rest) = scan ?st (cs @ rest)"
    using assms(1) c Cons scan_plain_char [of st c "cs @ rest"] by simp
  also have "\<dots> = scan (?st\<lparr>currentField := currentField ?st @ cs\<rparr>) rest"
    using assms(1) cs by (intro scan_mid_field) simp_all
  finally show ?thesis using Cons by simp
qed

lemma scan_interior:
  assumes "inQuotes st" "nextChar rest \<noteq> Some DQ"
  shows "scan st (escape interior @ DQ # rest) =
         scan (st\<lparr>currentField := currentField st @ interior, inQuotes := False\<rparr>) rest"
  using assms
proof (induction interior arbitrary: st)
  case Nil
  then show ?case by simp
next
  case (Cons c cs)
  let ?st = "st\<lparr>currentField := currentField st @ [c]\<rparr>"
  have "scan st (escape (c # cs) @ DQ # rest) = scan ?st (escape cs @ DQ # rest)"
    using Cons.prems(1) by simp
  also have "\<dots> = scan (?st\<lparr>currentField := currentField ?st @ cs, inQuotes := False\<rparr>) rest"
    using Cons.prems by (intro Cons.IH) simp_all
  finally show ?case by simp
qed



subsection \<open>The scanner on fields, rows and tables\<close>

lemma nextChar_append: "nextChar (a @ b) = (if a = [] then nextChar b else nextChar a)"
  by (cases a) simp_all

lemma scan_field:
  assumes "atFieldStart st" "wellFormed f" "nextChar rest \<noteq> Some DQ"
  shows "\<exists>st'. scan st (renderField f @ rest) = scan st' rest \<and> \<not> inQuotes st' \<and>
           rows st' = rows st \<and> currentRow st' = currentRow st \<and>
           fieldValue st' = fieldResult f"
proof (cases f)
  case (Plain raw)
  let ?st = "st\<lparr>currentField := currentField st @ raw\<rparr>"
  from assms Plain have "scan st (renderField f @ rest) = scan ?st rest"
    by (simp add: scan_raw atFieldStart_def)
  moreover from assms(1) Plain have "fieldValue ?st = fieldResult f"
    by (simp add: fieldValue_def atFieldStart_def)
  moreover from assms(1) have "\<not> inQuotes ?st" by (simp add: atFieldStart_def)
  ultimately show ?thesis by (intro exI [of _ ?st]) simp
next
  case (Quoted interior trailing)
  let ?st1 = "st\<lparr>inQuotes := True, fieldStartedWithQuote := True\<rparr>"
  let ?st2 = "?st1\<lparr>currentField := currentField ?st1 @ interior, inQuotes := False\<rparr>"
  let ?st3 = "?st2\<lparr>currentField := currentField ?st2 @ trailing\<rparr>"
  from assms(2) Quoted have raw: "rawText trailing" by simp
  then have nx: "nextChar (trailing @ rest) \<noteq> Some DQ"
    using assms(3) by (simp add: nextChar_append rawText_def)
  have "scan st (renderField f @ rest) = scan ?st1 (escape interior @ DQ # trailing @ rest)"
    using assms(1) Quoted by (simp add: atFieldStart_def)
  also have "\<dots> = scan ?st2 (trailing @ rest)"
    using nx by (intro scan_interior) simp_all
  also have "\<dots> = scan ?st3 rest"
    using raw by (intro scan_raw) simp_all
  finally have "scan st (renderField f @ rest) = scan ?st3 rest" .
  moreover from assms(1) Quoted have "fieldValue ?st3 = fieldResult f"
    by (simp add: fieldValue_def atFieldStart_def)
  ultimately show ?thesis by (intro exI [of _ ?st3]) simp
next
  case (Unclosed interior)
  with assms(2) show ?thesis by simp
qed

lemma scan_comma: "\<not> inQuotes st \<Longrightarrow> scan st (COMMA # rest) = scan (endField st) rest"
  by (simp add: COMMA_def DQ_def)

lemma scan_row:
  assumes "atFieldStart st" "fs \<noteq> []" "list_all wellFormed fs" "nextChar rest \<noteq> Some DQ"
  shows "\<exists>st'. scan st (renderRow fs @ rest) = scan st' rest \<and> \<not> inQuotes st' \<and>
           rows st' = rows st \<and>
           currentRow st' @ [fieldValue st'] = currentRow st @ map fieldResult fs"
  using assms(2) assms(1) assms(3) assms(4)
proof (induction fs arbitrary: st rule: list_nonempty_induct)
  case (single f)
  from scan_field [of st f rest] single obtain st' where
    "scan st (renderField f @ rest) = scan st' rest" "\<not> inQuotes st'" "rows st' = rows st"
    "currentRow st' = currentRow st" "fieldValue st' = fieldResult f"
    by auto
  then show ?case by (intro exI [of _ st']) (simp add: renderRow_def)
next
  case (cons f fs)
  have "nextChar (COMMA # renderRow fs @ rest) \<noteq> Some DQ"
    by (simp add: COMMA_def DQ_def)
  with scan_field [of st f "COMMA # renderRow fs @ rest"] cons.prems obtain st1 where
    st1: "scan st (renderField f @ COMMA # renderRow fs @ rest) = scan st1 (COMMA # renderRow fs @ rest)"
    "\<not> inQuotes st1" "rows st1 = rows st"
    "currentRow st1 = currentRow st" "fieldValue st1 = fieldResult f"
    by auto
  have start: "atFieldStart (endField st1)"
    using st1(2) by (simp add: atFieldStart_def endField_def)
  from cons.IH [OF start] cons.prems obtain st' where
    st': "scan (endField st1) (renderRow fs @ rest) = scan st' rest" "\<not> inQuotes st'"
    "rows st' = rows (endField st1)"
    "currentRow st' @ [fieldValue st'] = currentRow (endField st1) @ map fieldResult fs"
    by auto
  from cons.hyps obtain g gs where fs: "fs = g # gs" by (cases fs) auto
  have "renderRow (f # fs) @ rest = renderField f @ COMMA # renderRow fs @ rest"
    by (simp add: renderRow_def fs)
  then have "scan st (renderRow (f # fs) @ rest) = scan st' rest"
    using st1(1,2) st'(1) by (simp del: scan.simps add: scan_comma)
  moreover have "rows st' = rows st"
    using st'(3) st1(3) by (simp add: endField_def)
  moreover have "currentRow st' @ [fieldValue st'] = currentRow st @ map fieldResult (f # fs)"
    using st'(4) st1(4,5) by (simp add: endField_def)
  ultimately show ?case using st'(2) by (intro exI [of _ st']) simp
qed

lemma scan_break:
  assumes "\<not> inQuotes st" "lineBreak eol" "eol = [CR] \<longrightarrow> nextChar rest \<noteq> Some LF"
  shows "scan st (eol @ rest) = scan (endRow st) rest"
  using assms by (auto simp add: lineBreak_def LF_def CR_def DQ_def COMMA_def)

lemma nextChar_renderField:
  "wellFormed f \<Longrightarrow> nextChar (renderField f) \<noteq> Some LF"
  by (cases f; cases "case f of Plain raw \<Rightarrow> raw | Quoted i t \<Rightarrow> []")
     (simp_all add: rawText_def LF_def DQ_def)

lemma nextChar_renderRow:
  assumes "list_all wellFormed fs"
  shows "nextChar (renderRow fs) \<noteq> Some LF"
proof (cases fs)
  case Nil
  then show ?thesis by (simp add: renderRow_def)
next
  case (Cons f gs)
  with assms have f: "nextChar (renderField f) \<noteq> Some LF" by (simp add: nextChar_renderField)
  show ?thesis
  proof (cases gs)
    case Nil
    with Cons f show ?thesis by (simp add: renderRow_def)
  next
    case (Cons g hs)
    with \<open>fs = f # gs\<close> f show ?thesis
      by (simp add: renderRow_def nextChar_append COMMA_def LF_def)
  qed
qed

lemma nextChar_renderTable:
  assumes "wellFormedTable t"
  shows "nextChar (renderTable [CR] t) \<noteq> Some LF"
proof (cases t)
  case Nil
  then show ?thesis by (simp add: renderTable_def)
next
  case (Cons r rs)
  with assms have r: "nextChar (renderRow r) \<noteq> Some LF"
    by (simp add: wellFormedTable_def nextChar_renderRow)
  show ?thesis
  proof (cases rs)
    case Nil
    with Cons r show ?thesis by (simp add: renderTable_def)
  next
    case (Cons r' rs')
    with \<open>t = r # rs\<close> r show ?thesis
      by (simp add: renderTable_def nextChar_append CR_def LF_def)
  qed
qed

lemma flush_at_start:
  "atFieldStart st \<Longrightarrow> currentRow st = [] \<Longrightarrow> flush st = rows st"
  by (simp add: flush_def atFieldStart_def fieldValue_def someNonEmpty_def trim_def)

lemma scan_table:
  assumes "atFieldStart st" "currentRow st = []" "wellFormedTable t" "lineBreak eol"
  shows "flush (scan st (renderTable eol t)) =
         rows st @ filter someNonEmpty (map (map fieldResult) t)"
  using assms
proof (induction t arbitrary: st)
  case Nil
  then show ?case by (simp add: renderTable_def flush_at_start)
next
  case (Cons r rs)
  from Cons.prems have r: "r \<noteq> []" "list_all wellFormed r" and rs: "wellFormedTable rs"
    by (simp_all add: wellFormedTable_def)
  show ?case
  proof (cases rs)
    case Nil
    from scan_row [of st r "[]"] Cons.prems(1) r obtain st' where
      st': "scan st (renderRow r) = scan st' []" "\<not> inQuotes st'" "rows st' = rows st"
      "currentRow st' @ [fieldValue st'] = currentRow st @ map fieldResult r"
      by auto
    then show ?thesis
      using Nil Cons.prems(2) by (simp del: scan.simps(2) add: renderTable_def flush_def)
  next
    case (Cons r' rs')
    let ?rest = "renderTable eol rs"
    have eq: "renderTable eol (r # rs) = renderRow r @ eol @ ?rest"
      by (simp add: renderTable_def Cons)
    have "nextChar (eol @ ?rest) \<noteq> Some DQ"
      using \<open>lineBreak eol\<close> by (auto simp add: lineBreak_def LF_def CR_def DQ_def)
    with scan_row [of st r "eol @ ?rest"] \<open>atFieldStart st\<close> r obtain st' where
      st': "scan st (renderRow r @ eol @ ?rest) = scan st' (eol @ ?rest)"
      "\<not> inQuotes st'" "rows st' = rows st"
      "currentRow st' @ [fieldValue st'] = currentRow st @ map fieldResult r"
      by auto
    have "eol = [CR] \<longrightarrow> nextChar ?rest \<noteq> Some LF"
      using rs by (simp add: nextChar_renderTable)
    then have "scan st' (eol @ ?rest) = scan (endRow st') ?rest"
      using st'(2) \<open>lineBreak eol\<close> by (intro scan_break) simp_all
    moreover have "atFieldStart (endRow st')" "currentRow (endRow st') = []"
      using st'(2) by (simp_all add: atFieldStart_def endRow_def)
    then have "flush (scan (endRow st') ?rest) =
        rows (endRow st') @ filter someNonEmpty (map (map fieldResult) rs)"
      using rs \<open>lineBreak eol\<close> by (rule Cons.IH)
    moreover have "rows (endRow st') = rows st @ filter someNonEmpty [map fieldResult r]"
      using st'(3,4) \<open>currentRow st = []\<close> by (simp add: endRow_def flush_def)
    ultimately show ?thesis
      using eq st'(1) by (simp del: scan.simps)
  qed
qed

lemma scan_table_parse:
  assumes "wellFormedTable t" "lineBreak eol"
  shows "parseCSV (renderTable eol t) = filter someNonEmpty (map (map fieldResult) t)"
proof -
  have "atFieldStart initial" "currentRow initial = []" "rows initial = []"
    by (simp_all add: atFieldStart_def initial_def)
  with scan_table [of initial t eol] assms show ?thesis
    by (simp add: parseCSV_def)
qed

subsection \<open>Every text as lines of fields\<close>

text \<open>
  Every text is the rendering of the lines of fields that \<open>decompose\<close> reads from it, and
  the scanner returns the results of the fields of every well-formed reading.
\<close>

lemma unquote_open: "snd (unquote s) = None \<Longrightarrow> s = escape (fst (unquote s))"
proof (induction s rule: unquote.induct)
  case 1
  then show ?case by simp
next
  case (2 c cs)
  show ?case
  proof (cases "c = DQ")
    case quote: True
    show ?thesis
    proof (cases "nextChar cs = Some DQ")
      case True
      then obtain cs' where cs: "cs = DQ # cs'" by (cases cs) auto
      from quote True "2.prems" have "snd (unquote (tl cs)) = None" by simp
      with "2.IH" quote True have "tl cs = escape (fst (unquote (tl cs)))" by blast
      with quote cs show ?thesis by simp
    next
      case False
      with quote "2.prems" show ?thesis by simp
    qed
  next
    case False
    with "2.prems" have "snd (unquote cs) = None" by simp
    with "2.IH" False have "cs = escape (fst (unquote cs))" by blast
    with False show ?thesis by simp
  qed
qed

lemma unquote_closed:
  "snd (unquote s) = Some rest \<Longrightarrow>
   s = escape (fst (unquote s)) @ DQ # rest \<and> nextChar rest \<noteq> Some DQ"
proof (induction s rule: unquote.induct)
  case 1
  then show ?case by simp
next
  case (2 c cs)
  show ?case
  proof (cases "c = DQ")
    case quote: True
    show ?thesis
    proof (cases "nextChar cs = Some DQ")
      case True
      then obtain cs' where cs: "cs = DQ # cs'" by (cases cs) auto
      from quote True "2.prems" have "snd (unquote (tl cs)) = Some rest" by simp
      with "2.IH" quote True
      have "tl cs = escape (fst (unquote (tl cs))) @ DQ # rest \<and> nextChar rest \<noteq> Some DQ"
        by blast
      with quote cs show ?thesis by simp
    next
      case False
      with quote "2.prems" show ?thesis by simp
    qed
  next
    case False
    with "2.prems" have "snd (unquote cs) = Some rest" by simp
    with "2.IH" False
    have "cs = escape (fst (unquote cs)) @ DQ # rest \<and> nextChar rest \<noteq> Some DQ" by blast
    with False show ?thesis by simp
  qed
qed

lemma rawText_takeWhile:
  "nextChar s \<noteq> Some DQ \<Longrightarrow> rawText (takeWhile (\<lambda>c. \<not> isSeparator c) s)"
proof -
  assume n: "nextChar s \<noteq> Some DQ"
  have "list_all (\<lambda>c. c \<noteq> COMMA \<and> c \<noteq> LF \<and> c \<noteq> CR) (takeWhile (\<lambda>c. \<not> isSeparator c) s)"
    by (induction s) (simp_all add: isSeparator_def)
  moreover have "nextChar (takeWhile (\<lambda>c. \<not> isSeparator c) s) \<noteq> Some DQ"
    using n by (cases s) simp_all
  ultimately show ?thesis by (simp add: rawText_def)
qed

lemma separator_after: 
  "dropWhile (\<lambda>c. \<not> isSeparator c) s \<noteq> [] \<Longrightarrow> isSeparator (hd (dropWhile (\<lambda>c. \<not> isSeparator c) s))"
  using hd_dropWhile [of "\<lambda>c. \<not> isSeparator c" s] by simp

lemma firstField_reads:
  "renderField (fst (firstField s)) @ snd (firstField s) = s \<and>
   wellFormedLast (fst (firstField s)) \<and>
   (snd (firstField s) \<noteq> [] \<longrightarrow>
      wellFormed (fst (firstField s)) \<and> isSeparator (hd (snd (firstField s))))"
proof (cases "nextChar s = Some DQ")
  case True
  then obtain cs where s: "s = DQ # cs" by (cases s) auto
  show ?thesis
  proof (cases "snd (unquote cs)")
    case None
    with unquote_open [OF None] s show ?thesis by (simp add: firstField_def)
  next
    case (Some rest)
    from unquote_closed [OF Some]
    have cs: "cs = escape (fst (unquote cs)) @ DQ # rest" and n: "nextChar rest \<noteq> Some DQ"
      by simp_all
    have f: "firstField s =
        (Quoted (fst (unquote cs)) (takeWhile (\<lambda>c. \<not> isSeparator c) rest),
         dropWhile (\<lambda>c. \<not> isSeparator c) rest)"
      using s Some by (simp add: firstField_def)
    have "renderField (fst (firstField s)) @ snd (firstField s) =
        DQ # escape (fst (unquote cs)) @ DQ # rest"
      by (simp add: f)
    with cs s have "renderField (fst (firstField s)) @ snd (firstField s) = s" by simp
    moreover have "rawText (takeWhile (\<lambda>c. \<not> isSeparator c) rest)"
      using n by (rule rawText_takeWhile)
    ultimately show ?thesis
      by (simp add: f separator_after)
  qed
next
  case False
  then have f: "firstField s =
      (Plain (takeWhile (\<lambda>c. \<not> isSeparator c) s), dropWhile (\<lambda>c. \<not> isSeparator c) s)"
    by (simp add: firstField_def)
  from False have "rawText (takeWhile (\<lambda>c. \<not> isSeparator c) s)" by (rule rawText_takeWhile)
  then show ?thesis by (simp add: f separator_after)
qed

lemma renderRow_Cons: "fs \<noteq> [] \<Longrightarrow> renderRow (f # fs) = renderField f @ COMMA # renderRow fs"
  by (cases fs) (simp_all add: renderRow_def)

lemma renderRow_single: "renderRow [f] = renderField f"
  by (simp add: renderRow_def)

lemma addField_reads:
  assumes "wellFormedLayout d" "wellFormed f"
  shows "wellFormedLayout (addField f d) \<and>
         renderLayout (addField f d) = renderField f @ COMMA # renderLayout d"
proof (cases "fst d")
  case Nil
  with assms show ?thesis
    by (simp add: addField_def wellFormedLayout_def renderLayout_def renderRow_Cons)
next
  case (Cons l ls)
  with assms show ?thesis
    by (simp add: addField_def wellFormedLayout_def renderLayout_def renderRow_Cons)
qed

lemma addLine_reads:
  assumes "wellFormedLayout d" "wellFormed f"
  shows "wellFormedLayout (addLine f e d) \<and>
         renderLayout (addLine f e d) = renderField f @ renderEnd e @ renderLayout d"
  using assms by (simp add: addLine_def wellFormedLayout_def renderLayout_def renderRow_single)

lemma decompose_reads: "wellFormedLayout (decompose s) \<and> renderLayout (decompose s) = s"
proof (induction s rule: decompose.induct)
  case (1 s)
  let ?f = "fst (firstField s)"
  note r = firstField_reads [of s]
  show ?case
  proof (cases "snd (firstField s)")
    case Nil
    with r have "renderField ?f = s" "wellFormedLast ?f" by simp_all
    moreover from Nil have "decompose s = ([], [?f])"
      by (simp add: decompose.simps [of s])
    ultimately show ?thesis
      by (simp add: wellFormedLayout_def renderLayout_def renderRow_single)
  next
    case (Cons c cs)
    with r have s: "renderField ?f @ c # cs = s" and f: "wellFormed ?f" and c: "isSeparator c"
      by simp_all
    show ?thesis
    proof (cases "c = COMMA")
      case True
      with Cons have d: "decompose s = addField ?f (decompose cs)"
        by (simp add: decompose.simps [of s])
      from "1.IH"(1) [OF Cons True] addField_reads [OF _ f, of "decompose cs"] s True d
      show ?thesis by simp
    next
      case notComma: False
      show ?thesis
      proof (cases "c = CR \<and> nextChar cs = Some LF")
        case True
        then obtain cs' where cs: "cs = LF # cs'" by (cases cs) auto
        from Cons notComma True have d: "decompose s = addLine ?f ReturnLineFeed (decompose (tl cs))"
          by (simp add: decompose.simps [of s])
        from "1.IH"(2) [OF Cons notComma True]
          addLine_reads [OF _ f, of "decompose (tl cs)" ReturnLineFeed] s True d cs
        show ?thesis by simp
      next
        case False
        let ?e = "if c = CR then Return else LineFeed"
        from Cons notComma False have d: "decompose s = addLine ?f ?e (decompose cs)"
          by (auto simp add: decompose.simps [of s])
        from c notComma have e: "renderEnd ?e = [c]" by (auto simp add: isSeparator_def)
        from "1.IH"(3) [OF Cons notComma False]
          addLine_reads [OF _ f, of "decompose cs" ?e] s d e
        show ?thesis by simp
      qed
    qed
  qed
qed

lemma endRow_at_start:
  assumes "atFieldStart st" "currentRow st = []"
  shows "endRow st = st"
proof (rule pstate.equality)
  show "rows (endRow st) = rows st"
    using assms by (simp add: endRow_def flush_at_start)
qed (use assms in \<open>simp_all add: endRow_def atFieldStart_def\<close>)

lemma endRow_starts: "\<not> inQuotes st \<Longrightarrow> atFieldStart (endRow st) \<and> currentRow (endRow st) = []"
  by (simp add: endRow_def atFieldStart_def)

lemma scan_line_feed: "\<not> inQuotes st \<Longrightarrow> scan st (LF # rest) = scan (endRow st) rest"
  by (simp add: LF_def DQ_def COMMA_def CR_def)

lemma scan_end:
  assumes "\<not> inQuotes st"
  shows "scan st (renderEnd e @ rest) = scan (endRow st) rest"
proof (cases e)
  case LineFeed
  with assms show ?thesis by (simp add: scan_line_feed del: scan.simps)
next
  case ReturnLineFeed
  with assms show ?thesis by (simp add: LF_def DQ_def COMMA_def CR_def)
next
  case Return
  show ?thesis
  proof (cases "nextChar rest = Some LF")
    case True
    then obtain r where rest: "rest = LF # r" by (cases rest) auto
    have "scan st (CR # LF # r) = scan (endRow st) r"
      using assms by (simp add: LF_def DQ_def COMMA_def CR_def)
    moreover have "scan (endRow st) (LF # r) = scan (endRow (endRow st)) r"
      using endRow_starts [OF assms] by (intro scan_line_feed) (simp add: atFieldStart_def)
    moreover have "endRow (endRow st) = endRow st"
      using endRow_starts [OF assms] by (intro endRow_at_start) simp_all
    ultimately show ?thesis using Return rest by (simp del: scan.simps)
  next
    case False
    with assms Return show ?thesis by (simp add: LF_def DQ_def COMMA_def CR_def)
  qed
qed

lemma nextChar_renderEnd: "nextChar (renderEnd e @ rest) \<noteq> Some DQ"
  by (cases e) (simp_all add: LF_def CR_def DQ_def)

lemma scan_lines:
  assumes "atFieldStart st" "currentRow st = []"
    and "list_all (\<lambda>l. fst l \<noteq> [] \<and> list_all wellFormed (fst l)) ls"
  shows "\<exists>st'. scan st (renderLines ls @ rest) = scan st' rest \<and>
           atFieldStart st' \<and> currentRow st' = [] \<and>
           rows st' = rows st @ filter someNonEmpty (map (\<lambda>l. map fieldResult (fst l)) ls)"
  using assms
proof (induction ls arbitrary: st)
  case Nil
  then show ?case by (intro exI [of _ st]) simp
next
  case (Cons l ls)
  let ?rest = "renderEnd (snd l) @ renderLines ls @ rest"
  from Cons.prems(3) have l: "fst l \<noteq> []" "list_all wellFormed (fst l)"
    and ls: "list_all (\<lambda>l. fst l \<noteq> [] \<and> list_all wellFormed (fst l)) ls"
    by simp_all
  from scan_row [OF Cons.prems(1) l nextChar_renderEnd, of "snd l" "renderLines ls @ rest"]
  obtain st1 where st1: "scan st (renderRow (fst l) @ ?rest) = scan st1 ?rest"
    "\<not> inQuotes st1" "rows st1 = rows st"
    "currentRow st1 @ [fieldValue st1] = currentRow st @ map fieldResult (fst l)"
    by auto
  have e: "scan st1 ?rest = scan (endRow st1) (renderLines ls @ rest)"
    using st1(2) by (rule scan_end)
  from endRow_starts [OF st1(2)] have start: "atFieldStart (endRow st1)"
    "currentRow (endRow st1) = []" by simp_all
  from Cons.IH [OF start ls] obtain st' where
    st': "scan (endRow st1) (renderLines ls @ rest) = scan st' rest" "atFieldStart st'"
    "currentRow st' = []"
    "rows st' = rows (endRow st1) @
       filter someNonEmpty (map (\<lambda>l. map fieldResult (fst l)) ls)"
    by auto
  have r: "rows (endRow st1) = rows st @ filter someNonEmpty [map fieldResult (fst l)]"
    using st1(3,4) Cons.prems(2) by (simp add: endRow_def flush_def)
  have "scan st (renderLines (l # ls) @ rest) = scan st' rest"
    using st1(1) e st'(1) by (simp del: scan.simps)
  moreover have "rows st' =
      rows st @ filter someNonEmpty (map (\<lambda>l. map fieldResult (fst l)) (l # ls))"
    using st'(4) r by simp
  ultimately show ?case using st'(2,3) by (intro exI [of _ st']) simp
qed

lemma scan_open:
  "inQuotes st \<Longrightarrow> scan st (escape interior) = st\<lparr>currentField := currentField st @ interior\<rparr>"
proof (induction interior arbitrary: st)
  case Nil
  then show ?case by simp
next
  case (Cons c cs)
  let ?st = "st\<lparr>currentField := currentField st @ [c]\<rparr>"
  have "scan st (escape (c # cs)) = scan ?st (escape cs)"
    using Cons.prems by simp
  also have "\<dots> = ?st\<lparr>currentField := currentField ?st @ cs\<rparr>"
    using Cons.prems by (intro Cons.IH) simp
  finally show ?case by simp
qed

lemma scan_unclosed:
  assumes "atFieldStart st"
  shows "flush (scan st (renderField (Unclosed interior))) =
         (if someNonEmpty (currentRow st @ [interior])
          then rows st @ [currentRow st @ [interior]] else rows st)"
proof -
  let ?st1 = "st\<lparr>inQuotes := True, fieldStartedWithQuote := True\<rparr>"
  have "scan st (renderField (Unclosed interior)) = scan ?st1 (escape interior)"
    using assms by (simp add: atFieldStart_def)
  also have "\<dots> = ?st1\<lparr>currentField := currentField ?st1 @ interior\<rparr>"
    by (intro scan_open) simp
  finally show ?thesis
    using assms by (simp add: flush_def fieldValue_def atFieldStart_def Let_def)
qed

lemma renderRow_snoc:
  "fs \<noteq> [] \<Longrightarrow> renderRow (fs @ [f]) = renderRow fs @ COMMA # renderField f"
proof (induction fs rule: list_nonempty_induct)
  case (single g)
  show ?case by (simp add: renderRow_def)
next
  case (cons g gs)
  then show ?case by (simp add: renderRow_Cons)
qed

lemma scan_closed_last:
  assumes "atFieldStart st" "currentRow st = []" "final \<noteq> []" "list_all wellFormed final"
  shows "flush (scan st (renderRow final)) =
         rows st @ filter someNonEmpty [map fieldResult final]"
proof -
  from scan_row [OF assms(1,3,4), of "[]"] obtain st' where
    st': "scan st (renderRow final) = scan st' []" "rows st' = rows st"
    "currentRow st' @ [fieldValue st'] = currentRow st @ map fieldResult final"
    by auto
  have "flush (scan st (renderRow final)) = flush st'"
    by (simp only: st'(1) scan.simps(1))
  also have "\<dots> = rows st @ filter someNonEmpty [map fieldResult final]"
    using st'(2,3) assms(2) by (simp add: flush_def)
  finally show ?thesis .
qed

lemma scan_unclosed_last:
  assumes "atFieldStart st" "currentRow st = []" "list_all wellFormed init"
  shows "flush (scan st (renderRow (init @ [Unclosed interior]))) =
         rows st @ filter someNonEmpty [map fieldResult (init @ [Unclosed interior])]"
proof (cases "init = []")
  case True
  have "flush (scan st (renderRow [Unclosed interior])) =
      (if someNonEmpty (currentRow st @ [interior])
       then rows st @ [currentRow st @ [interior]] else rows st)"
    by (simp only: renderRow_single scan_unclosed [OF assms(1)])
  then show ?thesis using True assms(2) by simp
next
  case False
  let ?u = "renderField (Unclosed interior)"
  have n: "nextChar (COMMA # ?u) \<noteq> Some DQ"
    by (simp add: COMMA_def DQ_def del: renderField.simps)
  from scan_row [OF assms(1) False assms(3) n] obtain st1 where
    st1: "scan st (renderRow init @ COMMA # ?u) = scan st1 (COMMA # ?u)" "\<not> inQuotes st1"
    "rows st1 = rows st"
    "currentRow st1 @ [fieldValue st1] = currentRow st @ map fieldResult init"
    by blast
  have c: "scan st1 (COMMA # ?u) = scan (endField st1) ?u"
    using st1(2) by (rule scan_comma)
  have start: "atFieldStart (endField st1)"
    using st1(2) by (simp add: atFieldStart_def endField_def)
  have row: "currentRow (endField st1) = map fieldResult init"
    using st1(4) assms(2) by (simp add: endField_def)
  have rws: "rows (endField st1) = rows st"
    using st1(3) by (simp add: endField_def)
  have "flush (scan st (renderRow (init @ [Unclosed interior]))) = flush (scan (endField st1) ?u)"
    by (simp only: renderRow_snoc [OF False] st1(1) c)
  also have "\<dots> = (if someNonEmpty (currentRow (endField st1) @ [interior])
       then rows (endField st1) @ [currentRow (endField st1) @ [interior]]
       else rows (endField st1))"
    by (rule scan_unclosed [OF start])
  finally show ?thesis by (simp add: row rws)
qed

lemma scan_last:
  assumes "atFieldStart st" "currentRow st = []" "final \<noteq> []"
    and "list_all wellFormed (butlast final)" "wellFormedLast (last final)"
  shows "flush (scan st (renderRow final)) =
         rows st @ filter someNonEmpty [map fieldResult final]"
proof -
  have split: "butlast final @ [last final] = final"
    using assms(3) by (rule append_butlast_last_id)
  show ?thesis
  proof (cases "wellFormed (last final)")
    case True
    with assms(4) have "list_all wellFormed (butlast final @ [last final])" by simp
    then have "list_all wellFormed final" by (simp only: split)
    with assms(1-3) show ?thesis by (rule scan_closed_last)
  next
    case False
    with assms(5) obtain interior where u: "last final = Unclosed interior"
      by (cases "last final") simp_all
    have "flush (scan st (renderRow (butlast final @ [Unclosed interior]))) =
        rows st @ filter someNonEmpty [map fieldResult (butlast final @ [Unclosed interior])]"
      using assms(1,2,4) by (rule scan_unclosed_last)
    then show ?thesis by (simp only: u [symmetric] split)
  qed
qed

lemma parseCSV_layout:
  assumes "wellFormedLayout d"
  shows "parseCSV (renderLayout d) = filter someNonEmpty (map (map fieldResult) (layoutRows d))"
proof -
  from assms have ls: "list_all (\<lambda>l. fst l \<noteq> [] \<and> list_all wellFormed (fst l)) (fst d)"
    and final: "snd d \<noteq> []" "list_all wellFormed (butlast (snd d))" "wellFormedLast (last (snd d))"
    by (simp_all add: wellFormedLayout_def)
  have i: "atFieldStart initial" "currentRow initial = []" "rows initial = []"
    by (simp_all add: atFieldStart_def initial_def)
  from scan_lines [OF i(1,2) ls, of "renderRow (snd d)"] obtain st' where
    st': "scan initial (renderLines (fst d) @ renderRow (snd d)) = scan st' (renderRow (snd d))"
    "atFieldStart st'" "currentRow st' = []"
    "rows st' = rows initial @
       filter someNonEmpty (map (\<lambda>l. map fieldResult (fst l)) (fst d))"
    by auto
  have "parseCSV (renderLayout d) = flush (scan st' (renderRow (snd d)))"
    using st'(1) by (simp add: parseCSV_def renderLayout_def del: scan.simps)
  also have "\<dots> = rows st' @ filter someNonEmpty [map fieldResult (snd d)]"
    using st'(2,3) final by (rule scan_last)
  finally show ?thesis
    using st'(4) i(3) by (simp add: layoutRows_def comp_def)
qed

text \<open>
  Claim C1 as it stands says that a field that began with a double quote comes back as
  its interior. In the text \<open>"a" ,b\<close> a space stands between the closing quote and the
  comma; the scanner appends it, and the first field comes back as \<open>a\<close> followed by the
  space.
\<close>

theorem quoted_field_counterexample:
  "wellFormedTable quotedThenSpace \<and>
   renderTable [LF] quotedThenSpace = [DQ, CHR ''a'', DQ, CHR '' '', COMMA, CHR ''b''] \<and>
   map (map interiorOrTrimmed) quotedThenSpace = [[''a'', ''b'']] \<and>
   parseCSV (renderTable [LF] quotedThenSpace) = [[''a '', ''b'']] \<and>
   parseCSV (renderTable [LF] quotedThenSpace) \<noteq>
     filter someNonEmpty (map (map interiorOrTrimmed) quotedThenSpace)"
  by code_simp

text \<open>
  Claim C1, amended. Every text is a sequence of lines of fields: the fields of a line are
  separated by commas, the lines by line feeds, carriage returns or both, in any mixture,
  and the last field may begin with a double quote that is never closed. \<open>decompose\<close>
  reads the text so. For this reading, and for every other well-formed reading of the
  same text, the scanner returns the rows of fields, without the rows whose fields are
  all empty: a field that did not begin with a double quote comes back trimmed, and a
  field that began with one comes back untrimmed, as its interior followed by the
  characters that stand between the closing quote and the next separator. When nothing
  stands there, or the quote is never closed, the field is exactly its interior, with its
  white space, commas and line breaks.
\<close>

theorem fields_trimmed_or_verbatim:
  "wellFormedLayout (decompose csvText) \<and>
   renderLayout (decompose csvText) = csvText \<and>
   parseCSV csvText =
     filter someNonEmpty (map (map fieldResult) (layoutRows (decompose csvText))) \<and>
   (\<forall>d. wellFormedLayout d \<and> renderLayout d = csvText \<longrightarrow>
      parseCSV csvText = filter someNonEmpty (map (map fieldResult) (layoutRows d)))"
proof -
  have r: "wellFormedLayout (decompose csvText)" "renderLayout (decompose csvText) = csvText"
    using decompose_reads [of csvText] by simp_all
  have a: "parseCSV csvText = filter someNonEmpty (map (map fieldResult) (layoutRows d))"
    if "wellFormedLayout d" "renderLayout d = csvText" for d
    using parseCSV_layout [OF that(1)] by (simp only: that(2))
  from r a [OF r] a show ?thesis by blast
qed

theorem fields_trimmed_or_verbatim_witness:
  "wellFormedLayout mixedLayout \<and> renderLayout mixedLayout = mixedText \<and>
   decompose mixedText = mixedLayout \<and>
   parseCSV mixedText = [[''x''], [''a '', ''b''], [''c''], [''d'', '' open,'' @ [LF]]]"
proof -
  have w: "wellFormedLayout mixedLayout" by code_simp
  have r: "renderLayout mixedLayout = mixedText" by code_simp
  have d: "decompose mixedText = mixedLayout" by code_simp
  have v: "filter someNonEmpty (map (map fieldResult) (layoutRows mixedLayout)) =
      [[''x''], [''a '', ''b''], [''c''], [''d'', '' open,'' @ [LF]]]" by code_simp
  from fields_trimmed_or_verbatim [of mixedText] w r
  have "parseCSV mixedText = filter someNonEmpty (map (map fieldResult) (layoutRows mixedLayout))"
    by blast
  with w r d v show ?thesis by simp
qed

subsection \<open>The fallback path\<close>

lemma splitOn_nonempty: "splitOn sep s \<noteq> []"
  by (induction s) simp_all

lemma splitOn_hd_tl: "hd (splitOn sep s) # tl (splitOn sep s) = splitOn sep s"
  by (simp add: splitOn_nonempty)

lemma splitOn_Cons:
  "splitOn sep s = p # ps \<Longrightarrow>
   splitOn sep (c # s) = (if c = sep then [] # p # ps else (c # p) # ps)"
  by simp

lemma join_push: "join sep ((c # p) # ps) = c # join sep (p # ps)"
  by (cases ps) simp_all

lemma join_empty_first: "join sep ([] # p # ps) = sep @ join sep (p # ps)"
  by simp

lemma join_splitOn: "join [sep] (splitOn sep s) = s"
proof (induction s)
  case Nil
  then show ?case by simp
next
  case (Cons c cs)
  obtain p ps where sp: "splitOn sep cs = p # ps"
    using splitOn_nonempty [of sep cs] by (cases "splitOn sep cs") auto
  from Cons sp have "join [sep] (p # ps) = cs" by simp
  then show ?case
    by (simp only: splitOn_Cons [OF sp] join_push join_empty_first split: if_split) simp
qed

lemma splitOn_chars: "p \<in> set (splitOn sep s) \<Longrightarrow> set p \<subseteq> set s - {sep}"
proof (induction s arbitrary: p)
  case Nil
  then show ?case by simp
next
  case (Cons c cs)
  obtain q qs where sp: "splitOn sep cs = q # qs"
    using splitOn_nonempty [of sep cs] by (cases "splitOn sep cs") auto
  have q: "set q \<subseteq> set cs - {sep}" and qs: "\<And>r. r \<in> set qs \<Longrightarrow> set r \<subseteq> set cs - {sep}"
    using Cons.IH sp by simp_all
  show ?case
  proof (cases "c = sep")
    case True
    with Cons.prems sp have "p = [] \<or> p = q \<or> p \<in> set qs"
      by (simp only: splitOn_Cons [OF sp]) auto
    with q qs show ?thesis by auto
  next
    case False
    with Cons.prems sp have "p = c # q \<or> p \<in> set qs"
      by (simp only: splitOn_Cons [OF sp]) auto
    with q qs False show ?thesis by auto
  qed
qed

lemma trim_leading: "isWhitespace x \<Longrightarrow> trim (x # p) = trim p"
  by (simp add: trim_def)

lemma trim_trailing: "isWhitespace x \<Longrightarrow> trim (p @ [x]) = trim p"
proof (induction p)
  case Nil
  then show ?case by (simp add: trim_def)
next
  case (Cons c p)
  show ?case
  proof (cases "isWhitespace c")
    case True
    with Cons show ?thesis by (simp add: trim_leading)
  next
    case False
    with Cons.prems show ?thesis by (simp add: trim_def)
  qed
qed

lemma split_leading:
  assumes "isWhitespace x" "x \<noteq> sep"
  shows "map trim (splitOn sep (x # s)) = map trim (splitOn sep s)"
proof -
  have "map trim (splitOn sep (x # s)) =
      trim (x # hd (splitOn sep s)) # map trim (tl (splitOn sep s))"
    using assms(2) by simp
  also have "\<dots> = map trim (hd (splitOn sep s) # tl (splitOn sep s))"
    using assms(1) by (simp add: trim_leading)
  finally show ?thesis by (simp only: splitOn_hd_tl)
qed

lemma splitOn_snoc:
  "x \<noteq> sep \<Longrightarrow> splitOn sep (s @ [x]) = butlast (splitOn sep s) @ [last (splitOn sep s) @ [x]]"
proof (induction s)
  case Nil
  then show ?case by simp
next
  case (Cons c cs)
  obtain q qs where sp: "splitOn sep cs = q # qs"
    using splitOn_nonempty [of sep cs] by (cases "splitOn sep cs") auto
  obtain r rs where sx: "splitOn sep (cs @ [x]) = r # rs"
    using splitOn_nonempty [of sep "cs @ [x]"] by (cases "splitOn sep (cs @ [x])") auto
  from Cons sp sx have eq: "r # rs = butlast (q # qs) @ [last (q # qs) @ [x]]" by simp
  have "splitOn sep ((c # cs) @ [x]) = (if c = sep then [] # r # rs else (c # r) # rs)"
    using splitOn_Cons [OF sx, of c] by simp
  moreover have "splitOn sep (c # cs) = (if c = sep then [] # q # qs else (c # q) # qs)"
    by (rule splitOn_Cons [OF sp])
  ultimately show ?case
    using eq by (cases qs) (auto simp del: splitOn.simps)
qed

lemma split_trailing:
  assumes "isWhitespace x" "x \<noteq> sep"
  shows "map trim (splitOn sep (s @ [x])) = map trim (splitOn sep s)"
proof -
  have "map trim (splitOn sep (s @ [x])) =
      map trim (butlast (splitOn sep s)) @ [trim (last (splitOn sep s) @ [x])]"
    using assms(2) by (simp add: splitOn_snoc)
  also have "\<dots> = map trim (butlast (splitOn sep s) @ [last (splitOn sep s)])"
    using assms(1) by (simp add: trim_trailing)
  finally show ?thesis by (simp add: splitOn_nonempty)
qed

lemma split_dropWhile:
  assumes "\<not> isWhitespace sep"
  shows "map trim (splitOn sep (dropWhile isWhitespace s)) = map trim (splitOn sep s)"
proof (induction s)
  case Nil
  then show ?case by simp
next
  case (Cons c cs)
  show ?case
  proof (cases "isWhitespace c")
    case True
    with assms have "c \<noteq> sep" by auto
    with True Cons show ?thesis by (simp add: split_leading del: splitOn.simps)
  next
    case False
    then show ?thesis by simp
  qed
qed

lemma split_dropWhile_end:
  assumes "\<not> isWhitespace sep"
  shows "map trim (splitOn sep (rev (dropWhile isWhitespace (rev s)))) = map trim (splitOn sep s)"
proof (induction s rule: rev_induct)
  case Nil
  then show ?case by simp
next
  case (snoc c cs)
  show ?case
  proof (cases "isWhitespace c")
    case True
    with assms have "c \<noteq> sep" by auto
    with True snoc show ?thesis by (simp add: split_trailing del: splitOn.simps)
  next
    case False
    then show ?thesis by simp
  qed
qed

lemma split_trim:
  assumes "\<not> isWhitespace sep"
  shows "map trim (splitOn sep (trim s)) = map trim (splitOn sep s)"
  by (simp add: trim_def split_dropWhile_end [OF assms] split_dropWhile [OF assms])

lemma comma_not_whitespace: "\<not> isWhitespace COMMA"
  by (simp add: isWhitespace_def COMMA_def)

lemma fallbackParts_trimmed: "map trim (fallbackParts line) = map trim (splitOn COMMA line)"
  by (simp add: fallbackParts_def split_trim comma_not_whitespace)

lemma trim_empty: "trim [] = []"
  by (simp add: trim_def)

lemma blank_line_dropped:
  assumes "trim line = []"
  shows "\<not> someNonEmpty (map trim (splitOn COMMA line))"
proof -
  have "map trim (splitOn COMMA line) = map trim (splitOn COMMA (trim line))"
    by (simp add: split_trim comma_not_whitespace)
  also have "\<dots> = [[]]"
    by (simp only: assms) (simp add: trim_empty)
  finally show ?thesis by (simp add: someNonEmpty_def)
qed

lemma filter_blank_lines:
  "filter someNonEmpty (map (\<lambda>l. map trim (splitOn COMMA l)) (filter (\<lambda>l. trim l \<noteq> []) ls)) =
   filter someNonEmpty (map (\<lambda>l. map trim (splitOn COMMA l)) ls)"
  by (induction ls) (simp_all add: blank_line_dropped)

lemma fallbackRows_trimmed:
  "filter someNonEmpty (map (map trim) (fallbackRows csvText)) =
   filter someNonEmpty (map (\<lambda>l. map trim (splitOn COMMA l)) (splitOn LF csvText))"
proof -
  have "map (map trim) (fallbackRows csvText) =
      map (\<lambda>l. map trim (splitOn COMMA l)) (fallbackLines csvText)"
    by (simp add: fallbackRows_def fallbackParts_trimmed)
  then show ?thesis
    by (simp add: fallbackLines_def filter_blank_lines)
qed

text \<open>A text without quotes and carriage returns is the rendering of its lines and fields.\<close>

lemma plain_table:
  assumes "plainText csvText"
  shows "wellFormedTable (map (\<lambda>l. map Plain (splitOn COMMA l)) (splitOn LF csvText))"
proof -
  have "rawText p" if l: "l \<in> set (splitOn LF csvText)" and p: "p \<in> set (splitOn COMMA l)" for l p
  proof -
    from splitOn_chars [OF l] splitOn_chars [OF p] have "set p \<subseteq> set csvText - {LF} - {COMMA}"
      by auto
    moreover from assms have "DQ \<notin> set csvText" "CR \<notin> set csvText"
      by (auto simp add: plainText_def list_all_iff)
    ultimately have "\<forall>c \<in> set p. c \<noteq> COMMA \<and> c \<noteq> LF \<and> c \<noteq> CR \<and> c \<noteq> DQ" by auto
    then show ?thesis
      by (cases p) (auto simp add: rawText_def list_all_iff)
  qed
  then have "list_all wellFormed (map Plain (splitOn COMMA l))"
    if "l \<in> set (splitOn LF csvText)" for l
    using that by (simp add: list_all_iff)
  then show ?thesis
    by (simp add: wellFormedTable_def list_all_iff splitOn_nonempty)
qed

lemma plain_table_renders:
  "renderTable [LF] (map (\<lambda>l. map Plain (splitOn COMMA l)) (splitOn LF csvText)) = csvText"
proof -
  have "renderRow (map Plain ps) = join [COMMA] ps" for ps
    by (simp add: renderRow_def comp_def)
  then have "map renderRow (map (\<lambda>l. map Plain (splitOn COMMA l)) ls) = ls" for ls
    by (induction ls) (simp_all add: join_splitOn)
  then show ?thesis by (simp add: renderTable_def join_splitOn)
qed

lemma parseCSV_plain:
  assumes "plainText csvText"
  shows "parseCSV csvText =
         filter someNonEmpty (map (\<lambda>l. map trim (splitOn COMMA l)) (splitOn LF csvText))"
proof -
  let ?t = "map (\<lambda>l. map Plain (splitOn COMMA l)) (splitOn LF csvText)"
  have "parseCSV (renderTable [LF] ?t) = filter someNonEmpty (map (map fieldResult) ?t)"
    using plain_table [OF assms] by (intro scan_table_parse) (simp_all add: lineBreak_def)
  moreover have "map (map fieldResult) ?t = map (\<lambda>l. map trim (splitOn COMMA l)) (splitOn LF csvText)"
    by (simp add: comp_def)
  ultimately show ?thesis by (simp only: plain_table_renders)
qed

text \<open>
  Claim C3 as it stands says that the fallback path and the upload path cut every text
  into the same rows and fields. The fallback path has no quoted mode: a comma between
  double quotes ends a field there, and the quotes stay in the fields.
\<close>

theorem fallback_differs_counterexample:
  "parseCSV quotedCommaFile = [[''h'', ''i''], [''a,b'', ''c'']] \<and>
   fallbackRows quotedCommaFile =
     [[''h'', ''i''], [[DQ, CHR ''a''], [CHR ''b'', DQ], ''c'']] \<and>
   parseCSV quotedCommaFile \<noteq> fallbackRows quotedCommaFile"
  by code_simp

text \<open>
  Claim C3, amended. On every text without double quote and carriage return the two
  paths agree in this sense: the rows of the upload scanner are the rows of the fallback
  path with every field trimmed and without the rows whose fields are all empty.
\<close>

theorem fallback_agrees_without_quotes:
  assumes "plainText csvText"
  shows "parseCSV csvText = filter someNonEmpty (map (map trim) (fallbackRows csvText))"
  by (simp only: parseCSV_plain [OF assms] fallbackRows_trimmed)

theorem fallback_agrees_without_quotes_witness:
  "plainText oneQuestionFile \<and>
   fallbackRows oneQuestionFile = [[''h''], [''q'', '' a '', ''b'', ''c'', ''d''], [''x'', ''y'']] \<and>
   parseCSV oneQuestionFile = [[''h''], [''q'', ''a'', ''b'', ''c'', ''d''], [''x'', ''y'']]"
proof -
  have p: "plainText oneQuestionFile" by code_simp
  have f: "fallbackRows oneQuestionFile =
      [[''h''], [''q'', '' a '', ''b'', ''c'', ''d''], [''x'', ''y'']]" by code_simp
  have "filter someNonEmpty (map (map trim)
      [[''h''], [''q'', '' a '', ''b'', ''c'', ''d''], [''x'', ''y'']]) =
      [[''h''], [''q'', ''a'', ''b'', ''c'', ''d''], [''x'', ''y'']]" by code_simp
  with fallback_agrees_without_quotes [OF p] p f show ?thesis by simp
qed

subsection \<open>The two variants of the scanner\<close>

text \<open>
  The two variants differ where the claims about quoted fields speak: the earlier one trims
  a quoted field, and lets a double quote in the middle of a field open quoted mode, so
  that the comma after it no longer ends the field. The properties of the scanner above
  are those of the variant with \<open>fieldStartedWithQuote\<close>.
\<close>

lemma variants_differ:
  "parseCSV ([DQ] @ '' a '' @ [DQ]) = [['' a '']] \<and>
   parseCSVEarlier ([DQ] @ '' a '' @ [DQ]) = [[''a'']] \<and>
   parseCSV (''a'' @ [DQ] @ ''b,c'' @ [DQ] @ ''d'') = [[''a'' @ [DQ] @ ''b'', ''c'' @ [DQ] @ ''d'']] \<and>
   parseCSVEarlier (''a'' @ [DQ] @ ''b,c'' @ [DQ] @ ''d'') = [[''ab,cd'']]"
  by code_simp

end
